theory Spec2Isabelle
  imports Complex_Main
begin

section \<open>Pattern parser of m-onz-av: values and character classes\<close>

text \<open>
  The parser (\<^verbatim>\<open>src/lib/parser2.js\<close>, and its two rewrites modelled in the last two
  sections) produces JavaScript arrays whose elements are the
  rest string \<^verbatim>\<open>'-'\<close> or numbers obtained from \<^verbatim>\<open>parseInt\<close>. A number of JavaScript is
  a double; the numbers that occur here are \<^verbatim>\<open>NaN\<close> and doubles without a fraction, which
  are held as integers: \<open>Note n\<close> is the double of value \<open>n\<close>, and an integer of magnitude
  \<open>2^1024\<close> or more, which no finite double has, stands for \<^verbatim>\<open>Infinity\<close> with the sign of
  the integer. \<^verbatim>\<open>parseInt\<close> rounds what it reads to the nearest double. The arithmetic of
  the transformations and the printing of numbers are exact, which is what JavaScript
  computes as long as all values stay below \<open>2^53\<close> in magnitude; the statements that
  depend on it carry that bound. Strings are lists of 8-bit characters.
\<close>

datatype step = Rest | Note int | NaN

datatype error = RangeError

definition is_lower :: "char \<Rightarrow> bool" where
  "is_lower c = (let n = (of_char c :: nat) in 97 \<le> n \<and> n \<le> 122)"

definition is_upper :: "char \<Rightarrow> bool" where
  "is_upper c = (let n = (of_char c :: nat) in 65 \<le> n \<and> n \<le> 90)"

definition is_digit :: "char \<Rightarrow> bool" where
  "is_digit c = (let n = (of_char c :: nat) in 48 \<le> n \<and> n \<le> 57)"

definition digit_val :: "char \<Rightarrow> nat" where
  "digit_val c = of_char c - 48"

text \<open>\<^verbatim>\<open>parseInt\<close> on a non-empty run of decimal digits.\<close>

definition parse_digits :: "string \<Rightarrow> nat" where
  "parse_digits ds = foldl (\<lambda>acc c. 10 * acc + digit_val c) 0 ds"

text \<open>
  The double nearest to a natural number. Below \<open>2^53\<close> every integer is a double. From
  there on a double keeps the 53 leading bits of the number: the \<open>e\<close> bits below them are
  rounded away, to the nearest multiple of \<open>2^e\<close> and to the even one of two that are
  equally near. A result of \<open>2^1024\<close> or more is \<^verbatim>\<open>Infinity\<close>.
\<close>

fun bit_length :: "nat \<Rightarrow> nat" where
  "bit_length n = (if n = 0 then 0 else bit_length (n div 2) + 1)"

declare bit_length.simps [simp del]

definition round_double :: "nat \<Rightarrow> nat" where
  "round_double m =
     (if m < 2 ^ 53 then m
      else let e = bit_length m - 53; q = m div 2 ^ e; r = m mod 2 ^ e;
               nearest = (if 2 ^ e < 2 * r \<or> (2 * r = 2 ^ e \<and> odd q) then q + 1 else q) * 2 ^ e
           in if 2 ^ 1024 \<le> nearest then 2 ^ 1024 else nearest)"

section \<open>The random source\<close>

text \<open>
  \<^verbatim>\<open>Math.random()\<close> returns a number in \<open>[0, 1)\<close>. The source of randomness is a
  sequence of reals read at an index that each call advances; a draw is the fractional
  part of the entry, so every sequence is a legal random source.
\<close>

definition random :: "(nat \<Rightarrow> real) \<Rightarrow> nat \<Rightarrow> real" where
  "random rnd k = frac (rnd k)"

section \<open>transformPattern\<close>

text \<open>
  \<^verbatim>\<open>transformName.match(/([a-z]+)(\d*)/)\<close>: the regular expression is not anchored, so the
  match starts at the first lower-case letter of the name; group 1 is the maximal run of
  lower-case letters there and group 2 the maximal run of digits after it. There is no
  match when the name has no lower-case letter.
\<close>

definition paramMatch :: "string \<Rightarrow> (string \<times> string) option" where
  "paramMatch transformName =
     (let rest = dropWhile (\<lambda>c. \<not> is_lower c) transformName
      in if rest = [] then None
         else Some (takeWhile is_lower rest, takeWhile is_digit (dropWhile is_lower rest)))"

text \<open>\<^verbatim>\<open>note === '-' ? '-' : param * 2 - note\<close> and its siblings; arithmetic on \<^verbatim>\<open>NaN\<close> is \<^verbatim>\<open>NaN\<close>.\<close>

fun invert_note :: "nat \<Rightarrow> step \<Rightarrow> step" where
  "invert_note p Rest = Rest"
| "invert_note p (Note n) = Note (int p * 2 - n)"
| "invert_note p NaN = NaN"

fun scale_note :: "nat \<Rightarrow> step \<Rightarrow> step" where
  "scale_note p Rest = Rest"
| "scale_note p (Note n) = Note (n * int p)"
| "scale_note p NaN = NaN"

fun offset_note :: "nat \<Rightarrow> step \<Rightarrow> step" where
  "offset_note p Rest = Rest"
| "offset_note p (Note n) = Note (n + int p)"
| "offset_note p NaN = NaN"

text \<open>
  \<^verbatim>\<open>Math.round(note / param) * param\<close>: \<^verbatim>\<open>Math.round\<close> rounds halves up. With
  \<^verbatim>\<open>param = 0\<close> the quotient is infinite or \<^verbatim>\<open>NaN\<close> and its product with 0 is \<^verbatim>\<open>NaN\<close>.
\<close>

fun quantize_note :: "nat \<Rightarrow> step \<Rightarrow> step" where
  "quantize_note p Rest = Rest"
| "quantize_note p (Note n) =
     (if p = 0 then NaN else Note (\<lfloor>real_of_int n / real p + 1 / 2\<rfloor> * int p))"
| "quantize_note p NaN = NaN"

text \<open>
  \<^verbatim>\<open>shuffleArray\<close>: \<^verbatim>\<open>for (let i = array.length - 1; i > 0; i--)\<close> swaps \<^verbatim>\<open>array[i]\<close> with
  \<^verbatim>\<open>array[j]\<close>, \<^verbatim>\<open>j = Math.floor(Math.random() * (i + 1))\<close>.
\<close>

fun shuffle_loop :: "(nat \<Rightarrow> real) \<Rightarrow> nat \<Rightarrow> step list \<Rightarrow> nat \<Rightarrow> step list \<times> nat" where
  "shuffle_loop rnd 0 array k = (array, k)"
| "shuffle_loop rnd (Suc i) array k =
     (let j = nat \<lfloor>random rnd k * real (Suc i + 1)\<rfloor>;
          ai = array ! Suc i; aj = array ! j
      in shuffle_loop rnd i ((array[Suc i := aj])[j := ai]) (k + 1))"

definition shuffleArray :: "(nat \<Rightarrow> real) \<Rightarrow> step list \<Rightarrow> nat \<Rightarrow> step list \<times> nat" where
  "shuffleArray rnd array k = shuffle_loop rnd (length array - 1) array k"

text \<open>\<^verbatim>\<open>pattern.map(note => Math.random() < probability ? '-' : note)\<close>: one draw per element.\<close>

fun sparse_map :: "(nat \<Rightarrow> real) \<Rightarrow> real \<Rightarrow> step list \<Rightarrow> nat \<Rightarrow> step list" where
  "sparse_map rnd pr [] k = []"
| "sparse_map rnd pr (note # pattern) k =
     (if random rnd k < pr then Rest else note) # sparse_map rnd pr pattern (k + 1)"

text \<open>
  \<^verbatim>\<open>Array(param)\<close> throws a \<^verbatim>\<open>RangeError\<close> when \<^verbatim>\<open>param\<close> exceeds \<open>2^32 - 1\<close>, the
  largest array length of the language; \<^verbatim>\<open>flatMap\<close> calls it once per element, so an
  empty pattern never reaches it. Below that length the array is a list here. An engine
  may refuse a shorter array with the same error when it cannot allocate it, so the
  statements below promise a result only for sequences of at most a million elements.
\<close>

definition repeat_notes :: "nat \<Rightarrow> step list \<Rightarrow> error + step list" where
  "repeat_notes param pattern =
     (if pattern \<noteq> [] \<and> param > 2 ^ 32 - 1 then Inl RangeError
      else Inr (concat (map (replicate param) pattern)))"

text \<open>
  \<^verbatim>\<open>rotate\<close>: \<^verbatim>\<open>const steps = param || 1\<close>, so both a missing parameter and the parameter 0
  give one step.
\<close>

definition rotate_steps :: "nat option \<Rightarrow> nat" where
  "rotate_steps param = (case param of None \<Rightarrow> 1 | Some p \<Rightarrow> if p = 0 then 1 else p)"

definition rotate_pattern :: "nat option \<Rightarrow> step list \<Rightarrow> step list" where
  "rotate_pattern param pattern =
     (let steps = rotate_steps param; len = length pattern
      in if len \<le> 1 then pattern
         else let normalizedSteps = ((steps mod len) + len) mod len
              in drop normalizedSteps pattern @ take normalizedSteps pattern)"

text \<open>\<^verbatim>\<open>sparse\<close>: \<^verbatim>\<open>const probability = param ? param / 100 : 0.5\<close>.\<close>

definition sparse_probability :: "nat option \<Rightarrow> real" where
  "sparse_probability param =
     (case param of None \<Rightarrow> 1 / 2 | Some p \<Rightarrow> if p = 0 then 1 / 2 else real p / 100)"

text \<open>
  The result is the transformed pattern and the index of the next random draw, or the
  exception raised to the caller.
\<close>

definition transformPattern ::
  "(nat \<Rightarrow> real) \<Rightarrow> string \<Rightarrow> step list \<Rightarrow> nat \<Rightarrow> error + (step list \<times> nat)" where
  "transformPattern rnd transformName pattern k =
     (case paramMatch transformName of
        None \<Rightarrow> Inr (pattern, k)
      | Some (transform, digits) \<Rightarrow>
          let param = (if digits = [] then None
                       else Some (round_double (parse_digits digits)))
          in if transform = ''scramble'' then Inr (shuffleArray rnd pattern k)
             else if transform = ''invert'' then
               (case param of None \<Rightarrow> Inr (pattern, k)
                | Some p \<Rightarrow> Inr (map (invert_note p) pattern, k))
             else if transform = ''scale'' then
               (case param of None \<Rightarrow> Inr (pattern, k)
                | Some p \<Rightarrow> Inr (map (scale_note p) pattern, k))
             else if transform = ''offset'' then
               (case param of None \<Rightarrow> Inr (pattern, k)
                | Some p \<Rightarrow> Inr (map (offset_note p) pattern, k))
             else if transform = ''mirror'' then Inr (pattern @ rev (butlast pattern), k)
             else if transform = ''repeat'' then
               (case param of None \<Rightarrow> Inr (pattern, k)
                | Some p \<Rightarrow>
                    (case repeat_notes p pattern of Inl e \<Rightarrow> Inl e
                     | Inr r \<Rightarrow> Inr (r, k)))
             else if transform = ''quantize'' then
               (case param of None \<Rightarrow> Inr (pattern, k)
                | Some p \<Rightarrow> Inr (map (quantize_note p) pattern, k))
             else if transform = ''reverse'' then Inr (rev pattern, k)
             else if transform = ''rotate'' then Inr (rotate_pattern param pattern, k)
             else if transform = ''sparse'' then
               Inr (sparse_map rnd (sparse_probability param) pattern k, k + length pattern)
             else if transform = ''interleave'' then
               Inr (concat (map (\<lambda>note. [note, Rest]) pattern), k)
             else Inr (pattern, k))"

text \<open>The names of the switch in \<^verbatim>\<open>transformPattern\<close>.\<close>

definition registry :: "string list" where
  "registry = [''scramble'', ''invert'', ''scale'', ''offset'', ''mirror'', ''repeat'',
               ''quantize'', ''reverse'', ''rotate'', ''sparse'', ''interleave'']"

section \<open>Properties of transformPattern\<close>

lemmas char_class_defs = is_lower_def is_upper_def is_digit_def digit_val_def parse_digits_def
  round_double_def

text \<open>A random source that always draws 0, for closed statements.\<close>

definition no_random :: "nat \<Rightarrow> real" where
  "no_random k = 0"

text \<open>
  The identifier split as the specification words it: the letters-only prefix of the name.
\<close>

definition letters_prefix :: "string \<Rightarrow> string" where
  "letters_prefix name = takeWhile (\<lambda>c. is_lower c \<or> is_upper c) name"

text \<open>
  Claim C1, at the input where the code departs from it: \<^verbatim>\<open>rotate0\<close> reads the parameter 0,
  \<^verbatim>\<open>param || 1\<close> turns it into one step, and the sequence 1 2 3 comes back rotated by one
  position instead of unchanged.
\<close>

theorem rotate0_rotates_by_one:
  "transformPattern no_random ''rotate0'' [Note 1, Note 2, Note 3] 0
     = Inr ([Note 2, Note 3, Note 1], 0)"
  by (simp add: transformPattern_def paramMatch_def char_class_defs rotate_pattern_def
      rotate_steps_def)

text \<open>
  The other half of claim C1 holds in the code: a rotation by the length of the sequence
  (or by any multiple of it other than 0) returns the sequence.
\<close>

lemma rotate_pattern_length:
  "rotate_pattern (Some (length s)) s = s"
  by (simp add: rotate_pattern_def rotate_steps_def Let_def)

text \<open>
  Claim C9 as stated fails: the name \<^verbatim>\<open>2scale3\<close> has the empty letters-only prefix, which
  is no registry entry, yet the unanchored match finds \<^verbatim>\<open>scale\<close> and \<^verbatim>\<open>3\<close> inside it and
  the sequence is scaled.
\<close>

theorem unknown_prefix_still_transforms:
  "letters_prefix ''2scale3'' \<notin> set registry \<and>
   transformPattern no_random ''2scale3'' [Note 1] 0 = Inr ([Note 3], 0) \<and>
   transformPattern no_random ''2scale3'' [Note 1] 0 \<noteq> Inr ([Note 1], 0)"
  by (simp add: letters_prefix_def registry_def transformPattern_def paramMatch_def
      char_class_defs)

text \<open>
  Claim C9, amended: when the name has no lower-case letter, or the first run of
  lower-case letters in it (the key the code looks up) is not a registry entry,
  \<^verbatim>\<open>transformPattern\<close> returns the sequence unchanged and draws no random number.
\<close>

theorem transformPattern_unknown:
  assumes "case paramMatch name of
             None \<Rightarrow> True
           | Some (transform, digits) \<Rightarrow> transform \<notin> set registry"
  shows "transformPattern rnd name s k = Inr (s, k)"
  using assms
  by (auto simp: transformPattern_def registry_def Let_def split: option.splits)

theorem transformPattern_unknown_witness:
  "transformPattern no_random ''unknown7'' [Note 1, Rest] 0 = Inr ([Note 1, Rest], 0)"
  by (rule transformPattern_unknown) (simp add: paramMatch_def char_class_defs registry_def)

text \<open>
  Claim C10 as stated fails: \<^verbatim>\<open>repeat4294967296\<close> on a one-note sequence reaches
  \<^verbatim>\<open>Array(4294967296)\<close>, which raises a \<^verbatim>\<open>RangeError\<close> to the caller.
\<close>

theorem repeat_huge_raises:
  "transformPattern no_random ''repeat4294967296'' [Note 1] 0 = Inl RangeError"
  by (simp add: transformPattern_def paramMatch_def char_class_defs repeat_notes_def)

text \<open>
  Claim C10, amended: \<^verbatim>\<open>transformPattern\<close> raises a \<^verbatim>\<open>RangeError\<close> whenever the name
  selects \<^verbatim>\<open>repeat\<close> with a parameter above \<open>2^32 - 1\<close> and the sequence is not empty; and
  it returns a sequence for every name and every sequence of at most a million elements,
  provided that a \<^verbatim>\<open>repeat\<close> expands it to at most a million elements.
\<close>

theorem transformPattern_raises_or_returns:
  "(s \<noteq> [] \<and> paramMatch name = Some (''repeat'', digits) \<and> digits \<noteq> [] \<and>
    2 ^ 32 - 1 < round_double (parse_digits digits)
    \<longrightarrow> transformPattern rnd name s k = Inl RangeError) \<and>
   (length s \<le> 1000000 \<and>
    (\<forall>ds. paramMatch name = Some (''repeat'', ds) \<longrightarrow>
            round_double (parse_digits ds) * length s \<le> 1000000)
    \<longrightarrow> (\<exists>r k'. transformPattern rnd name s k = Inr (r, k')))"
proof (intro conjI impI)
  assume "s \<noteq> [] \<and> paramMatch name = Some (''repeat'', digits) \<and> digits \<noteq> [] \<and>
          2 ^ 32 - 1 < round_double (parse_digits digits)"
  then show "transformPattern rnd name s k = Inl RangeError"
    by (simp add: transformPattern_def repeat_notes_def)
next
  assume a: "length s \<le> 1000000 \<and>
    (\<forall>ds. paramMatch name = Some (''repeat'', ds) \<longrightarrow>
            round_double (parse_digits ds) * length s \<le> 1000000)"
  show "\<exists>r k'. transformPattern rnd name s k = Inr (r, k')"
  proof (cases "\<exists>ds. paramMatch name = Some (''repeat'', ds) \<and> ds \<noteq> [] \<and> s \<noteq> []")
    case True
    then obtain ds where ds: "paramMatch name = Some (''repeat'', ds)" "ds \<noteq> []" "s \<noteq> []"
      by blast
    with a have b: "round_double (parse_digits ds) * length s \<le> 1000000" by blast
    have "1 \<le> length s" using ds(3) by (cases s) auto
    then have "round_double (parse_digits ds) \<le> round_double (parse_digits ds) * length s"
      by simp
    with b have "round_double (parse_digits ds) \<le> 1000000" by linarith
    then have "\<not> 2 ^ 32 - 1 < round_double (parse_digits ds)" by simp
    with ds show ?thesis by (simp add: transformPattern_def repeat_notes_def)
  next
    case False
    then show ?thesis
      by (auto simp: transformPattern_def Let_def repeat_notes_def shuffleArray_def
          split: option.splits prod.splits)
  qed
qed

theorem transformPattern_raises_or_returns_witness:
  "transformPattern no_random ''repeat4294967297'' [Rest] 0 = Inl RangeError \<and>
   (\<exists>r k'. transformPattern no_random ''repeat3'' [Note 1, Rest] 0 = Inr (r, k')) \<and>
   (\<exists>r k'. transformPattern no_random ''scramble'' [Note 1, Rest] 0 = Inr (r, k'))"
proof -
  have p1: "paramMatch ''repeat4294967297'' = Some (''repeat'', ''4294967297'')"
    and p2: "paramMatch ''repeat3'' = Some (''repeat'', ''3'')"
    and p3: "paramMatch ''scramble'' = Some (''scramble'', [])"
    by (simp_all add: paramMatch_def char_class_defs)
  have a: "transformPattern no_random ''repeat4294967297'' [Rest] 0 = Inl RangeError"
    using transformPattern_raises_or_returns
      [of "[Rest]" "''repeat4294967297''" "''4294967297''" no_random 0] p1
    by (simp add: char_class_defs)
  have b: "\<exists>r k'. transformPattern no_random ''repeat3'' [Note 1, Rest] 0 = Inr (r, k')"
    using transformPattern_raises_or_returns
      [of "[Note 1, Rest]" "''repeat3''" "[]" no_random 0] p2
    by (simp add: char_class_defs)
  have c: "\<exists>r k'. transformPattern no_random ''scramble'' [Note 1, Rest] 0 = Inr (r, k')"
    using transformPattern_raises_or_returns
      [of "[Note 1, Rest]" "''scramble''" "[]" no_random 0] p3
    by simp
  from a b c show ?thesis by simp
qed

section \<open>Strings and numbers\<close>

text \<open>
  White space as \<^verbatim>\<open>\s\<close>, \<^verbatim>\<open>String.prototype.trim\<close> and \<^verbatim>\<open>parseInt\<close> read it, among the
  code units below 256: TAB, LF, VT, FF, CR, space and the no-break space.
\<close>

definition is_space :: "char \<Rightarrow> bool" where
  "is_space c = (let n = (of_char c :: nat) in (9 \<le> n \<and> n \<le> 13) \<or> n = 32 \<or> n = 160)"

definition is_hex_digit :: "char \<Rightarrow> bool" where
  "is_hex_digit c =
     (let n = (of_char c :: nat)
      in (48 \<le> n \<and> n \<le> 57) \<or> (97 \<le> n \<and> n \<le> 102) \<or> (65 \<le> n \<and> n \<le> 70))"

definition hex_val :: "char \<Rightarrow> nat" where
  "hex_val c =
     (let n = (of_char c :: nat)
      in if n \<le> 57 then n - 48 else if 97 \<le> n then n - 87 else n - 55)"

definition parse_hex :: "string \<Rightarrow> nat" where
  "parse_hex ds = foldl (\<lambda>acc c. 16 * acc + hex_val c) 0 ds"

fun strip_sign :: "string \<Rightarrow> bool \<times> string" where
  "strip_sign [] = (False, [])"
| "strip_sign (c # cs) =
     (if c = CHR ''-'' then (True, cs)
      else if c = CHR ''+'' then (False, cs)
      else (False, c # cs))"

text \<open>
  \<^verbatim>\<open>parseInt(string)\<close> without a radix: leading white space is skipped, a sign is read,
  a \<^verbatim>\<open>0x\<close> or \<^verbatim>\<open>0X\<close> prefix selects base 16, and the longest run of digits is the value,
  rounded to a double. \<open>None\<close> stands for \<^verbatim>\<open>NaN\<close> (no digit was found).
\<close>

definition parseInt :: "string \<Rightarrow> int option" where
  "parseInt s =
     (let (neg, S) = strip_sign (dropWhile is_space s);
          hex = (take 2 S = ''0x'' \<or> take 2 S = ''0X'');
          Z = (if hex then takeWhile is_hex_digit (drop 2 S) else takeWhile is_digit S)
      in if Z = [] then None
         else let mathInt = int (round_double (if hex then parse_hex Z else parse_digits Z))
              in Some (if neg then - mathInt else mathInt))"

text \<open>The decimal digits of a natural number, as \<^verbatim>\<open>Number.prototype.toString\<close> writes them.\<close>

definition digit_char :: "nat \<Rightarrow> char" where
  "digit_char d = ''0123456789'' ! d"

fun nat_to_string :: "nat \<Rightarrow> string" where
  "nat_to_string n =
     (if n < 10 then [digit_char n] else nat_to_string (n div 10) @ [digit_char (n mod 10)])"

declare nat_to_string.simps [simp del]

text \<open>
  From \<open>10^21\<close> on a number is written in exponent notation: the first significant digit,
  the other significant digits after a point, and \<^verbatim>\<open>e+\<close> with the exponent. The digits
  are those of the integer itself, which is what JavaScript prints when they are at most
  15 (a power of ten, for instance). Infinity is written \<^verbatim>\<open>Infinity\<close>.
\<close>

definition exponent_notation :: "nat \<Rightarrow> string" where
  "exponent_notation m =
     (let ds = nat_to_string m;
          sig = rev (dropWhile (\<lambda>c. c = CHR ''0'') (rev ds))
      in (case sig of
            [] \<Rightarrow> ds
          | d # more \<Rightarrow>
              d # (if more = [] then [] else CHR ''.'' # more)
                @ ''e+'' @ nat_to_string (length ds - 1)))"

definition numToString :: "int \<Rightarrow> string" where
  "numToString n =
     (let m = nat \<bar>n\<bar>
      in (if n < 0 then ''-'' else []) @
         (if m < 10 ^ 21 then nat_to_string m
          else if 2 ^ 1024 \<le> m then ''Infinity''
          else exponent_notation m))"

section \<open>normalizePattern\<close>

text \<open>The loose values an array handed to \<^verbatim>\<open>normalizePattern\<close> may hold.\<close>

datatype jsval = JNum int | JNaN | JStr string | JUndefined | JNull

fun toString :: "jsval \<Rightarrow> string" where
  "toString (JNum n) = numToString n"
| "toString JNaN = ''NaN''"
| "toString (JStr s) = s"
| "toString JUndefined = ''undefined''"
| "toString JNull = ''null''"

definition normalize_item :: "jsval \<Rightarrow> jsval" where
  "normalize_item item =
     (if item = JStr ''-'' \<or> item = JUndefined \<or> item = JNull then JStr ''-''
      else (case parseInt (toString item) of
              None \<Rightarrow> item
            | Some parsed \<Rightarrow> JNum parsed))"

definition normalizePattern :: "jsval list \<Rightarrow> jsval list" where
  "normalizePattern pattern = map normalize_item pattern"

text \<open>
  A number of the list that is within the safe integers of JavaScript; every other
  element passes.
\<close>

fun safe_item :: "jsval \<Rightarrow> bool" where
  "safe_item (JNum n) = (\<bar>n\<bar> < 2 ^ 53)"
| "safe_item JNaN = True"
| "safe_item (JStr s) = True"
| "safe_item JUndefined = True"
| "safe_item JNull = True"

text \<open>A step as the JavaScript value it is.\<close>

fun step_val :: "step \<Rightarrow> jsval" where
  "step_val Rest = JStr ''-''"
| "step_val (Note n) = JNum n"
| "step_val NaN = JNaN"

section \<open>Properties of number printing and parsing\<close>

lemma digit_char_props:
  assumes "d < 10"
  shows "is_digit (digit_char d)" "digit_val (digit_char d) = d"
    "\<not> is_space (digit_char d)" "digit_char d \<noteq> CHR ''-''" "digit_char d \<noteq> CHR ''+''"
    "digit_char d \<noteq> CHR ''x''" "digit_char d \<noteq> CHR ''X''"
proof -
  from assms have "d \<in> {0,1,2,3,4,5,6,7,8,9}" by auto
  then show "is_digit (digit_char d)" "digit_val (digit_char d) = d"
    "\<not> is_space (digit_char d)" "digit_char d \<noteq> CHR ''-''" "digit_char d \<noteq> CHR ''+''"
    "digit_char d \<noteq> CHR ''x''" "digit_char d \<noteq> CHR ''X''"
    by (auto simp: digit_char_def is_digit_def digit_val_def is_space_def)
qed

lemma is_digit_props:
  assumes "is_digit c"
  shows "\<not> is_space c" "c \<noteq> CHR ''-''" "c \<noteq> CHR ''+''" "c \<noteq> CHR ''x''" "c \<noteq> CHR ''X''"
  using assms by (auto simp: is_digit_def is_space_def Let_def)

lemma nat_to_string_digits: "\<forall>c\<in>set (nat_to_string n). is_digit c"
proof (induction n rule: nat_to_string.induct)
  case (1 n)
  show ?case
  proof (cases "n < 10")
    case True
    then show ?thesis by (subst nat_to_string.simps) (simp add: digit_char_props)
  next
    case False
    with 1 show ?thesis
      by (subst nat_to_string.simps) (simp add: digit_char_props)
  qed
qed

lemma nat_to_string_nonempty: "nat_to_string n \<noteq> []"
  by (subst nat_to_string.simps) simp

lemma parse_digits_snoc: "parse_digits (ds @ [c]) = 10 * parse_digits ds + digit_val c"
  by (simp add: parse_digits_def)

lemma parse_digits_nat_to_string: "parse_digits (nat_to_string n) = n"
proof (induction n rule: nat_to_string.induct)
  case (1 n)
  show ?case
  proof (cases "n < 10")
    case True
    then show ?thesis
      by (subst nat_to_string.simps) (simp add: parse_digits_def digit_char_props)
  next
    case False
    with 1 show ?thesis
      by (subst nat_to_string.simps) (simp add: parse_digits_snoc digit_char_props)
  qed
qed

lemma takeWhile_all: "\<forall>c\<in>set ds. P c \<Longrightarrow> takeWhile P ds = ds"
  by (induction ds) auto

lemma parseInt_digit_string:
  assumes "ds \<noteq> []" "\<forall>c\<in>set ds. is_digit c"
  shows "parseInt ds = Some (int (round_double (parse_digits ds)))"
    and "parseInt (CHR ''-'' # ds) = Some (- int (round_double (parse_digits ds)))"
proof -
  obtain a rest where ds: "ds = a # rest" using assms(1) by (cases ds) auto
  have a: "is_digit a" using assms(2) ds by simp
  have nohex: "take 2 ds \<noteq> ''0x''" "take 2 ds \<noteq> ''0X''"
    using assms(2) ds by (cases rest; auto dest: is_digit_props)+
  have tw: "takeWhile is_digit ds = ds" using assms(2) by (rule takeWhile_all)
  have dw: "dropWhile is_space ds = ds" using a ds by (simp add: is_digit_props)
  have ss: "strip_sign ds = (False, ds)" using a ds by (simp add: is_digit_props)
  show "parseInt ds = Some (int (round_double (parse_digits ds)))"
    using nohex assms(1) by (simp add: parseInt_def dw ss tw Let_def)
  have ns: "\<not> is_space CHR ''-''"
    by (simp add: is_space_def)
  show "parseInt (CHR ''-'' # ds) = Some (- int (round_double (parse_digits ds)))"
    using nohex assms(1) by (simp add: parseInt_def ns tw Let_def)
qed

lemma round_double_safe: "m < 2 ^ 53 \<Longrightarrow> round_double m = m"
  by (simp add: round_double_def)

lemma parseInt_numToString:
  assumes "\<bar>n\<bar> < 2 ^ 53"
  shows "parseInt (numToString n) = Some n"
proof -
  let ?m = "nat \<bar>n\<bar>"
  have s: "?m < 2 ^ 53" using assms by (simp add: nat_less_iff)
  then have m: "?m < 10 ^ 21" by simp
  note rd = round_double_safe[OF s]
  show ?thesis
  proof (cases "n < 0")
    case True
    then have "numToString n = CHR ''-'' # nat_to_string ?m"
      using m by (simp add: numToString_def Let_def)
    then show ?thesis using True rd
      by (simp add: parseInt_digit_string(2)[OF nat_to_string_nonempty nat_to_string_digits]
          parse_digits_nat_to_string)
  next
    case False
    then have "numToString n = nat_to_string ?m"
      using m by (simp add: numToString_def Let_def)
    then show ?thesis using False rd
      by (simp add: parseInt_digit_string(1)[OF nat_to_string_nonempty nat_to_string_digits]
          parse_digits_nat_to_string)
  qed
qed

section \<open>Properties of normalizePattern\<close>

lemmas string_class_defs = char_class_defs is_space_def is_hex_digit_def hex_val_def parse_hex_def

lemma normalize_item_idem:
  assumes "\<forall>n. parseInt (toString x) = Some n \<longrightarrow> \<bar>n\<bar> < 2 ^ 53"
  shows "normalize_item (normalize_item x) = normalize_item x"
  using assms
  by (auto simp: normalize_item_def parseInt_numToString split: option.splits)

text \<open>
  Claim C2 as stated fails: the string \<^verbatim>\<open>'abc'\<close> is not numeric-looking
  (\<^verbatim>\<open>parseInt\<close> gives \<^verbatim>\<open>NaN\<close>), and \<^verbatim>\<open>isNaN(parsed) ? item : parsed\<close> returns it as it is,
  not as the rest symbol.
\<close>

theorem normalize_keeps_non_numeric:
  "parseInt ''abc'' = None \<and>
   normalizePattern [JStr ''abc''] = [JStr ''abc''] \<and>
   normalizePattern [JStr ''abc''] \<noteq> [JStr ''-'']"
  by (simp add: normalizePattern_def normalize_item_def parseInt_def string_class_defs)

text \<open>
  Idempotence has a bound: the 21 digits \<^verbatim>\<open>999999999999999999999\<close> are read as the
  double \<open>10^21\<close>, which prints as \<^verbatim>\<open>1e+21\<close>, and a second pass parses that to 1.
\<close>

lemma normalize_twice_large:
  "normalizePattern [JStr ''999999999999999999999''] = [JNum (10 ^ 21)] \<and>
   normalizePattern [JNum (10 ^ 21)] = [JNum 1]"
  by (simp add: normalizePattern_def normalize_item_def parseInt_def string_class_defs
      numToString_def exponent_notation_def nat_to_string.simps digit_char_def
      bit_length.simps)

text \<open>
  Claim C2, amended, for a list whose numbers are integers below \<open>2^53\<close> in magnitude
  (its strings are arbitrary): \<^verbatim>\<open>normalizePattern\<close> keeps the length; an element that is
  \<^verbatim>\<open>'-'\<close>, \<^verbatim>\<open>undefined\<close> or \<^verbatim>\<open>null\<close> becomes the rest symbol; any other element on which
  \<^verbatim>\<open>parseInt\<close> finds a number becomes that number; every remaining element is returned
  unchanged; and a second pass changes nothing when every number found is below \<open>2^53\<close>
  in magnitude.
\<close>

theorem normalizePattern_elements_and_idempotence:
  assumes "list_all safe_item xs"
  shows "length (normalizePattern xs) = length xs \<and>
   (\<forall>i<length xs.
      (xs ! i \<in> {JStr ''-'', JUndefined, JNull} \<longrightarrow> normalizePattern xs ! i = JStr ''-'') \<and>
      (xs ! i \<notin> {JStr ''-'', JUndefined, JNull} \<longrightarrow>
         (\<forall>n. parseInt (toString (xs ! i)) = Some n \<longrightarrow> normalizePattern xs ! i = JNum n) \<and>
         (parseInt (toString (xs ! i)) = None \<longrightarrow> normalizePattern xs ! i = xs ! i))) \<and>
   ((\<forall>x\<in>set xs. \<forall>n. parseInt (toString x) = Some n \<longrightarrow> \<bar>n\<bar> < 2 ^ 53) \<longrightarrow>
      normalizePattern (normalizePattern xs) = normalizePattern xs)"
proof (intro conjI allI impI)
  show "length (normalizePattern xs) = length xs"
    by (simp add: normalizePattern_def)
next
  fix i assume "i < length xs" "xs ! i \<in> {JStr ''-'', JUndefined, JNull}"
  then show "normalizePattern xs ! i = JStr ''-''"
    by (auto simp: normalizePattern_def normalize_item_def)
next
  fix i n
  assume "i < length xs" "xs ! i \<notin> {JStr ''-'', JUndefined, JNull}"
    "parseInt (toString (xs ! i)) = Some n"
  then show "normalizePattern xs ! i = JNum n"
    by (simp add: normalizePattern_def normalize_item_def)
next
  fix i
  assume "i < length xs" "xs ! i \<notin> {JStr ''-'', JUndefined, JNull}"
    "parseInt (toString (xs ! i)) = None"
  then show "normalizePattern xs ! i = xs ! i"
    by (simp add: normalizePattern_def normalize_item_def)
next
  assume "\<forall>x\<in>set xs. \<forall>n. parseInt (toString x) = Some n \<longrightarrow> \<bar>n\<bar> < 2 ^ 53"
  then show "normalizePattern (normalizePattern xs) = normalizePattern xs"
    by (simp add: normalizePattern_def normalize_item_idem)
qed

theorem normalizePattern_elements_and_idempotence_witness:
  "list_all safe_item [JStr ''abc'', JNull, JStr ''7x'', JNum 5] \<and>
   normalizePattern [JStr ''abc'', JNull, JStr ''7x'', JNum 5]
     = [JStr ''abc'', JStr ''-'', JNum 7, JNum 5] \<and>
   normalizePattern (normalizePattern [JStr ''abc'', JNull, JStr ''7x'', JNum 5])
     = normalizePattern [JStr ''abc'', JNull, JStr ''7x'', JNum 5]"
proof -
  let ?xs = "[JStr ''abc'', JNull, JStr ''7x'', JNum 5]"
  have safe: "list_all safe_item ?xs" by simp
  have small: "\<forall>x\<in>set ?xs. \<forall>n. parseInt (toString x) = Some n \<longrightarrow> \<bar>n\<bar> < 2 ^ 53"
    by (simp add: parseInt_def string_class_defs numToString_def nat_to_string.simps
        digit_char_def)
  have idem: "normalizePattern (normalizePattern ?xs) = normalizePattern ?xs"
    using normalizePattern_elements_and_idempotence [OF safe] small by blast
  have val: "normalizePattern ?xs = [JStr ''abc'', JStr ''-'', JNum 7, JNum 5]"
    by (simp add: normalizePattern_def normalize_item_def parseInt_def string_class_defs
        numToString_def nat_to_string.simps digit_char_def)
  from safe val idem show ?thesis by simp
qed

section \<open>createRandomPattern\<close>

record random_options =
  length_opt :: nat
  minValue :: int
  maxValue :: int
  restProbability :: real
  groupProbability :: real
  repetitionProbability :: real

definition random_defaults :: random_options where
  "random_defaults =
     \<lparr> length_opt = 16, minValue = 1, maxValue = 99, restProbability = 3 / 10,
       groupProbability = 2 / 10, repetitionProbability = 4 / 10 \<rparr>"

text \<open>
  \<^verbatim>\<open>Math.floor(Math.random() * (config.maxValue - config.minValue + 1)) + config.minValue\<close>,
  with the draw at index \<open>k\<close>.
\<close>

definition random_note :: "(nat \<Rightarrow> real) \<Rightarrow> random_options \<Rightarrow> nat \<Rightarrow> step" where
  "random_note rnd config k =
     Note (\<lfloor>random rnd k * real_of_int (maxValue config - minValue config + 1)\<rfloor>
           + minValue config)"

text \<open>\<^verbatim>\<open>Math.floor(Math.random() * 3) + 2\<close>: a group length or a repeat count, 2 to 4.\<close>

definition random_count :: "(nat \<Rightarrow> real) \<Rightarrow> nat \<Rightarrow> nat" where
  "random_count rnd k = nat \<lfloor>random rnd k * 3\<rfloor> + 2"

text \<open>The inner loop that fills a group of \<open>groupLength\<close> elements.\<close>

fun random_group ::
  "(nat \<Rightarrow> real) \<Rightarrow> random_options \<Rightarrow> nat \<Rightarrow> nat \<Rightarrow> step list \<times> nat" where
  "random_group rnd config 0 k = ([], k)"
| "random_group rnd config (Suc j) k =
     (if random rnd k < restProbability config
      then (let (group, k') = random_group rnd config j (k + 1) in (Rest # group, k'))
      else (let (group, k') = random_group rnd config j (k + 2)
            in (random_note rnd config (k + 1) # group, k')))"

text \<open>
  The main loop \<^verbatim>\<open>for (let i = 0; i < config.length; i++)\<close>; the body also advances
  \<^verbatim>\<open>i\<close> after a group or a repeated note. \<open>k\<close> is the index of the next random draw.
\<close>

function createRandomPattern_loop ::
  "(nat \<Rightarrow> real) \<Rightarrow> random_options \<Rightarrow> nat \<Rightarrow> step list \<Rightarrow> nat \<Rightarrow> step list \<times> nat" where
  "createRandomPattern_loop rnd config i result k =
     (if i < length_opt config then
        (if random rnd k < restProbability config then
           createRandomPattern_loop rnd config (i + 1) (result @ [Rest]) (k + 1)
         else if random rnd k < restProbability config + groupProbability config then
           (if int i < int (length_opt config) - 3 then
              (let groupLength = random_count rnd (k + 1);
                   (group, k1) = random_group rnd config groupLength (k + 2)
               in if random rnd k1 < repetitionProbability config
                  then createRandomPattern_loop rnd config (i + (groupLength - 1) + 1)
                         (result @ concat (replicate (random_count rnd (k1 + 1)) group))
                         (k1 + 2)
                  else createRandomPattern_loop rnd config (i + (groupLength - 1) + 1)
                         (result @ group) (k1 + 1))
            else createRandomPattern_loop rnd config (i + 1)
                   (result @ [random_note rnd config (k + 1)]) (k + 2))
         else
           (if random rnd (k + 2) < repetitionProbability config then
              (let repeatCount = random_count rnd (k + 3)
               in createRandomPattern_loop rnd config (i + (repeatCount - 1) + 1)
                    (result @ replicate repeatCount (random_note rnd config (k + 1))) (k + 4))
            else createRandomPattern_loop rnd config (i + 1)
                   (result @ [random_note rnd config (k + 1)]) (k + 3)))
      else (result, k))"
  by pat_completeness auto
termination
  by (relation "measure (\<lambda>(rnd, config, i, result, k). length_opt config - i)") auto

declare createRandomPattern_loop.simps [simp del]

definition createRandomPattern ::
  "(nat \<Rightarrow> real) \<Rightarrow> random_options \<Rightarrow> nat \<Rightarrow> step list \<times> nat" where
  "createRandomPattern rnd config k = createRandomPattern_loop rnd config 0 [] k"

text \<open>
  A run of the random source: fifteen draws of 0 (fifteen rests), then at \<open>i = 15\<close> the
  draw 0.9 (a note), 0 (the value 1), 0 (repeat it) and 0.9 (four times).
\<close>

definition late_repeat_source :: "nat \<Rightarrow> real" where
  "late_repeat_source k = (if k = 15 \<or> k = 18 then 9 / 10 else 0)"

section \<open>Properties of createRandomPattern\<close>

text \<open>A rest, or a note whose value lies within \<^verbatim>\<open>[minValue, maxValue]\<close>.\<close>

fun in_range :: "random_options \<Rightarrow> step \<Rightarrow> bool" where
  "in_range config Rest = True"
| "in_range config (Note v) = (minValue config \<le> v \<and> v \<le> maxValue config)"
| "in_range config NaN = False"

lemma random_bounds: "0 \<le> random rnd k" "random rnd k < 1"
  by (simp_all add: random_def frac_lt_1)

lemma random_note_in_range:
  assumes "minValue config \<le> maxValue config"
  shows "in_range config (random_note rnd config k)"
proof -
  define d where "d = maxValue config - minValue config + 1"
  have d: "0 < d" using assms by (simp add: d_def)
  have lo: "0 \<le> random rnd k * real_of_int d"
    using random_bounds(1)[of rnd k] d by simp
  have "random rnd k * real_of_int d < 1 * real_of_int d"
    using random_bounds(2)[of rnd k] d by (intro mult_strict_right_mono) simp_all
  then have "random rnd k * real_of_int d < real_of_int d" by simp
  then have hi: "\<lfloor>random rnd k * real_of_int d\<rfloor> < d"
    using floor_less_iff by blast
  from lo have "0 \<le> \<lfloor>random rnd k * real_of_int d\<rfloor>" by simp
  with hi show ?thesis unfolding random_note_def d_def[symmetric] by (simp add: d_def)
qed

lemma random_count_bounds: "2 \<le> random_count rnd k" "random_count rnd k \<le> 4"
proof -
  have "random rnd k * 3 < 3" using random_bounds(2)[of rnd k] by simp
  then have "\<lfloor>random rnd k * 3\<rfloor> < 3" using floor_less_iff by fastforce
  then have "nat \<lfloor>random rnd k * 3\<rfloor> \<le> 2" by linarith
  then show "random_count rnd k \<le> 4" by (simp add: random_count_def)
  show "2 \<le> random_count rnd k" by (simp add: random_count_def)
qed

lemma random_group_in_range:
  assumes "minValue config \<le> maxValue config"
  shows "\<forall>s\<in>set (fst (random_group rnd config j k)). in_range config s"
proof (induction j arbitrary: k)
  case 0
  show ?case by simp
next
  case (Suc j)
  show ?case
    using Suc[of "k + 1"] Suc[of "k + 2"] random_note_in_range[OF assms, of rnd "k + 1"]
    by (simp add: case_prod_unfold Let_def)
qed

lemma loop_in_range:
  assumes "minValue config \<le> maxValue config" "\<forall>s\<in>set result. in_range config s"
  shows "\<forall>s\<in>set (fst (createRandomPattern_loop rnd config i result k)). in_range config s"
  using assms
proof (induction rnd config i result k rule: createRandomPattern_loop.induct)
  case (1 rnd config i result k)
  note mm = "1.prems"(1)
  note inv = "1.prems"(2)
  note rn = random_note_in_range[OF mm]
  note unf = createRandomPattern_loop.simps[of rnd config i result k]
  show ?case
  proof (cases "i < length_opt config")
    case False
    then show ?thesis using inv by (simp add: unf)
  next
    case lt: True
    show ?thesis
    proof (cases "random rnd k < restProbability config")
      case c1: True
      have "\<forall>s\<in>set (result @ [Rest]). in_range config s" using inv by simp
      from "1.IH"(1)[OF lt c1 mm this] show ?thesis by (simp add: unf lt c1)
    next
      case c1: False
      show ?thesis
      proof (cases "random rnd k < restProbability config + groupProbability config")
        case c2: True
        show ?thesis
        proof (cases "int i < int (length_opt config) - 3")
          case c3: True
          obtain xb y where g: "random_group rnd config (random_count rnd (k + 1)) (k + 2) = (xb, y)"
            by (cases "random_group rnd config (random_count rnd (k + 1)) (k + 2)") auto
          have xb: "\<forall>s\<in>set xb. in_range config s"
            using random_group_in_range[OF mm, of rnd "random_count rnd (k + 1)" "k + 2"] g by simp
          show ?thesis
          proof (cases "random rnd y < repetitionProbability config")
            case c4: True
            have "\<forall>s\<in>set (result @ concat (replicate (random_count rnd (y + 1)) xb)).
                    in_range config s"
              using inv xb by auto
            from "1.IH"(2)[OF lt c1 c2 c3 refl refl g[symmetric] c4 mm this] g c4 show ?thesis
              unfolding unf by (simp add: lt c1 c2 c3 Let_def)
          next
            case c4: False
            have "\<forall>s\<in>set (result @ xb). in_range config s"
              using inv xb by auto
            from "1.IH"(3)[OF lt c1 c2 c3 refl refl g[symmetric] c4 mm this] g c4 show ?thesis
              unfolding unf by (simp add: lt c1 c2 c3 Let_def)
          qed
        next
          case c3: False
          have "\<forall>s\<in>set (result @ [random_note rnd config (k + 1)]). in_range config s"
            using inv rn by simp
          from "1.IH"(4)[OF lt c1 c2 c3 mm this] show ?thesis
            by (simp add: unf lt c1 c2 c3)
        qed
      next
        case c2: False
        show ?thesis
        proof (cases "random rnd (k + 2) < repetitionProbability config")
          case c4: True
          have "\<forall>s\<in>set (result @ replicate (random_count rnd (k + 3))
                    (random_note rnd config (k + 1))). in_range config s"
            using inv rn by auto
          from "1.IH"(5)[OF lt c1 c2 c4 refl mm this] c4 show ?thesis
            unfolding unf by (simp add: lt c1 c2 Let_def)
        next
          case c4: False
          have "\<forall>s\<in>set (result @ [random_note rnd config (k + 1)]). in_range config s"
            using inv rn by simp
          from "1.IH"(6)[OF lt c1 c2 c4 mm this] c4 show ?thesis
            unfolding unf by (simp add: lt c1 c2)
        qed
      qed
    qed
  qed
qed

lemma loop_length_no_groups:
  assumes "groupProbability config \<le> 0"
  shows "length_opt config + length result
           \<le> length (fst (createRandomPattern_loop rnd config i result k)) + i \<and>
         (i \<le> length_opt config \<longrightarrow>
            length (fst (createRandomPattern_loop rnd config i result k)) + i
              \<le> length_opt config + length result + 3)"
  using assms
proof (induction rnd config i result k rule: createRandomPattern_loop.induct)
  case (1 rnd config i result k)
  note gp = "1.prems"
  note unf = createRandomPattern_loop.simps[of rnd config i result k]
  show ?case
  proof (cases "i < length_opt config")
    case False
    then show ?thesis unfolding unf by simp
  next
    case lt: True
    show ?thesis
    proof (cases "random rnd k < restProbability config")
      case c1: True
      from "1.IH"(1)[OF lt c1 gp] lt show ?thesis unfolding unf by (simp add: c1)
    next
      case c1: False
      have c2: "\<not> random rnd k < restProbability config + groupProbability config"
        using c1 gp by linarith
      show ?thesis
      proof (cases "random rnd (k + 2) < repetitionProbability config")
        case c4: True
        define rc where "rc = random_count rnd (k + 3)"
        define i' where "i' = i + (rc - 1) + 1"
        define result' where "result' = result @ replicate rc (random_note rnd config (k + 1))"
        have b: "2 \<le> rc" "rc \<le> 4" using random_count_bounds[of rnd "k + 3"] by (simp_all add: rc_def)
        have step: "createRandomPattern_loop rnd config i result k
                      = createRandomPattern_loop rnd config i' result' (k + 4)"
          unfolding unf using c4 by (simp add: lt c1 c2 Let_def rc_def i'_def result'_def)
        have ih: "length_opt config + length result'
                    \<le> length (fst (createRandomPattern_loop rnd config i' result' (k + 4))) + i' \<and>
                  (i' \<le> length_opt config \<longrightarrow>
                    length (fst (createRandomPattern_loop rnd config i' result' (k + 4))) + i'
                      \<le> length_opt config + length result' + 3)"
          using "1.IH"(5)[OF lt c1 c2 c4 refl gp] by (simp add: rc_def i'_def result'_def)
        have i': "i' = i + rc" using b by (simp add: i'_def)
        have len: "length result' = length result + rc" by (simp add: result'_def)
        show ?thesis
        proof (cases "i' \<le> length_opt config")
          case True
          with ih i' len show ?thesis unfolding step by simp
        next
          case False
          then have "createRandomPattern_loop rnd config i' result' (k + 4) = (result', k + 4)"
            by (simp add: createRandomPattern_loop.simps[of rnd config i' result' "k + 4"])
          with i' len lt b False show ?thesis unfolding step by simp
        qed
      next
        case c4: False
        from "1.IH"(6)[OF lt c1 c2 c4 gp] lt c4 show ?thesis
          unfolding unf by (simp add: c1 c2)
      qed
    qed
  qed
qed

lemma createRandomPattern_in_range:
  assumes "minValue config \<le> maxValue config"
  shows "\<forall>s\<in>set (fst (createRandomPattern rnd config k)). in_range config s"
  unfolding createRandomPattern_def by (rule loop_in_range[OF assms]) simp

lemma createRandomPattern_length_no_groups:
  assumes "groupProbability config \<le> 0"
  shows "length_opt config \<le> length (fst (createRandomPattern rnd config k))"
    and "length (fst (createRandomPattern rnd config k)) \<le> length_opt config + 3"
  using loop_length_no_groups[OF assms, of "[]" rnd 0 k]
  by (simp_all add: createRandomPattern_def)

text \<open>
  Claim C4, at the input where the code departs from it: with length 16 and group
  probability 0, fifteen rests are followed at \<open>i = 15\<close> by a note that is repeated four
  times, and the result has 19 elements, not 16. The note-repetition branch has no test
  for the end of the sequence (the group branch has \<^verbatim>\<open>i < config.length - 3\<close>).
\<close>

theorem late_repeat_overshoots:
  "fst (createRandomPattern late_repeat_source (random_defaults\<lparr>groupProbability := 0\<rparr>) 0)
     = replicate 15 Rest @ replicate 4 (Note 1) \<and>
   length (fst (createRandomPattern late_repeat_source
                  (random_defaults\<lparr>groupProbability := 0\<rparr>) 0)) = 19"
  by (simp add: createRandomPattern_def createRandomPattern_loop.simps random_defaults_def
      late_repeat_source_def random_def frac_def random_note_def random_count_def
      eval_nat_numeral)

section \<open>The tokenizer of parsePatternString\<close>

text \<open>
  \<^verbatim>\<open>pattern.match(/(\w+\s*\[.*?\]|\[.*?\]\*\d+|\[.*?\]|[^,;\s]+)/g)\<close>: all matches from left to
  right. At a position the four alternatives are tried in order; each function below gives
  the length of the match of one alternative at the start of the string. A lazy \<^verbatim>\<open>.*?\<close>
  stops at the first \<^verbatim>\<open>]\<close> after which the rest of its alternative matches, and \<^verbatim>\<open>.\<close>
  matches no line terminator.
\<close>

definition is_word :: "char \<Rightarrow> bool" where
  "is_word c = (is_lower c \<or> is_upper c \<or> is_digit c \<or> c = CHR ''_'')"

definition is_line_terminator :: "char \<Rightarrow> bool" where
  "is_line_terminator c = (let n = (of_char c :: nat) in n = 10 \<or> n = 13)"

text \<open>\<^verbatim>\<open>.*?\]\<close> with nothing after it: the characters before the first \<^verbatim>\<open>]\<close>.\<close>

definition close_bracket :: "string \<Rightarrow> nat option" where
  "close_bracket r =
     (let body = takeWhile (\<lambda>c. c \<noteq> CHR '']'') r
      in if length body < length r \<and> list_all (\<lambda>c. \<not> is_line_terminator c) body
         then Some (length body) else None)"

text \<open>Alternative 1, \<^verbatim>\<open>\w+\s*\[.*?\]\<close>.\<close>

definition alt1_len :: "string \<Rightarrow> nat option" where
  "alt1_len s =
     (let nw = length (takeWhile is_word s);
          ns = length (takeWhile is_space (drop nw s))
      in if nw = 0 then None
         else (case drop (nw + ns) s of
                 [] \<Rightarrow> None
               | c # r \<Rightarrow>
                   if c = CHR ''[''
                   then (case close_bracket r of
                           None \<Rightarrow> None
                         | Some nb \<Rightarrow> Some (nw + ns + 1 + nb + 1))
                   else None))"

text \<open>Alternative 2, \<^verbatim>\<open>\[.*?\]\*\d+\<close>: the scan passes a \<^verbatim>\<open>]\<close> that no star and digit follow.\<close>

definition star_digit :: "string \<Rightarrow> bool" where
  "star_digit cs = (case cs of x # d # _ \<Rightarrow> x = CHR ''*'' \<and> is_digit d | _ \<Rightarrow> False)"

fun alt2_scan :: "string \<Rightarrow> nat option" where
  "alt2_scan [] = None"
| "alt2_scan (c # cs) =
     (if is_line_terminator c then None
      else if c = CHR '']'' \<and> star_digit cs
           then Some (2 + length (takeWhile is_digit (tl cs)))
           else map_option Suc (alt2_scan cs))"

definition alt2_len :: "string \<Rightarrow> nat option" where
  "alt2_len s =
     (case s of [] \<Rightarrow> None
      | c # r \<Rightarrow> if c = CHR ''['' then map_option Suc (alt2_scan r) else None)"

text \<open>Alternative 3, \<^verbatim>\<open>\[.*?\]\<close>, and alternative 4, \<^verbatim>\<open>[^,;\s]+\<close>.\<close>

definition alt3_len :: "string \<Rightarrow> nat option" where
  "alt3_len s =
     (case s of [] \<Rightarrow> None
      | c # r \<Rightarrow> if c = CHR ''['' then map_option (\<lambda>nb. nb + 2) (close_bracket r) else None)"

definition alt4_len :: "string \<Rightarrow> nat option" where
  "alt4_len s =
     (let n = length (takeWhile (\<lambda>c. c \<noteq> CHR '','' \<and> c \<noteq> CHR '';'' \<and> \<not> is_space c) s)
      in if n = 0 then None else Some n)"

definition match_len :: "string \<Rightarrow> nat option" where
  "match_len s =
     (case alt1_len s of Some n \<Rightarrow> Some n
      | None \<Rightarrow>
     (case alt2_len s of Some n \<Rightarrow> Some n
      | None \<Rightarrow>
     (case alt3_len s of Some n \<Rightarrow> Some n
      | None \<Rightarrow> alt4_len s)))"

lemma alt2_scan_pos: "alt2_scan r = Some n \<Longrightarrow> 0 < n"
  by (induction r arbitrary: n) (auto split: if_splits)

lemma match_len_pos: "match_len s = Some n \<Longrightarrow> 0 < n"
  by (auto simp: match_len_def alt1_len_def alt2_len_def alt3_len_def alt4_len_def Let_def
      split: option.splits list.splits if_splits)

function match_all :: "string \<Rightarrow> string list" where
  "match_all s =
     (if s = [] then []
      else (case match_len s of
              None \<Rightarrow> match_all (tl s)
            | Some n \<Rightarrow> take n s # match_all (drop n s)))"
  by pat_completeness auto
termination
  by (relation "measure length") (auto dest: match_len_pos)

declare match_all.simps [simp del]

lemmas tok_defs = match_len_def alt1_len_def alt2_len_def alt3_len_def alt4_len_def
  close_bracket_def star_digit_def is_word_def is_line_terminator_def is_space_def
  is_lower_def is_upper_def is_digit_def

section \<open>Numeric strings\<close>

text \<open>
  \<^verbatim>\<open>!isNaN(token)\<close> on a string converts it with \<^verbatim>\<open>Number\<close>: after trimming, the empty
  string, a decimal literal (with sign, fraction or exponent, or \<^verbatim>\<open>Infinity\<close>) and an
  unsigned hexadecimal, octal or binary literal are numbers; every other string is
  \<^verbatim>\<open>NaN\<close>.
\<close>

definition js_trim :: "string \<Rightarrow> string" where
  "js_trim s = rev (dropWhile is_space (rev (dropWhile is_space s)))"

definition exponent_ok :: "string \<Rightarrow> bool" where
  "exponent_ok r =
     (case r of
        [] \<Rightarrow> True
      | e # r' \<Rightarrow>
          (e = CHR ''e'' \<or> e = CHR ''E'') \<and>
          (let ds = snd (strip_sign r') in ds \<noteq> [] \<and> list_all is_digit ds))"

definition unsigned_decimal_ok :: "string \<Rightarrow> bool" where
  "unsigned_decimal_ok u =
     (u = ''Infinity'' \<or>
      (let ip = takeWhile is_digit u; r = dropWhile is_digit u
       in (case r of
             [] \<Rightarrow> ip \<noteq> []
           | c # r' \<Rightarrow>
               if c = CHR ''.''
               then (let fp = takeWhile is_digit r'
                     in (ip \<noteq> [] \<or> fp \<noteq> []) \<and> exponent_ok (dropWhile is_digit r'))
               else ip \<noteq> [] \<and> exponent_ok r)))"

definition is_octal_digit :: "char \<Rightarrow> bool" where
  "is_octal_digit c = (let n = (of_char c :: nat) in 48 \<le> n \<and> n \<le> 55)"

definition is_binary_digit :: "char \<Rightarrow> bool" where
  "is_binary_digit c = (c = CHR ''0'' \<or> c = CHR ''1'')"

definition nondecimal_ok :: "string \<Rightarrow> bool" where
  "nondecimal_ok t =
     (case t of
        z # x # ds \<Rightarrow>
          z = CHR ''0'' \<and> ds \<noteq> [] \<and>
          (((x = CHR ''x'' \<or> x = CHR ''X'') \<and> list_all is_hex_digit ds) \<or>
           ((x = CHR ''o'' \<or> x = CHR ''O'') \<and> list_all is_octal_digit ds) \<or>
           ((x = CHR ''b'' \<or> x = CHR ''B'') \<and> list_all is_binary_digit ds))
      | _ \<Rightarrow> False)"

definition is_numeric_string :: "string \<Rightarrow> bool" where
  "is_numeric_string s =
     (let t = js_trim s
      in t = [] \<or> nondecimal_ok t \<or> unsigned_decimal_ok (snd (strip_sign t)))"

lemmas num_defs = is_numeric_string_def js_trim_def nondecimal_ok_def unsigned_decimal_ok_def
  exponent_ok_def is_octal_digit_def is_binary_digit_def is_hex_digit_def is_space_def is_digit_def

section \<open>String helpers\<close>

definition indexOf :: "char \<Rightarrow> string \<Rightarrow> int" where
  "indexOf c s = (if c \<in> set s then int (length (takeWhile (\<lambda>x. x \<noteq> c) s)) else - 1)"

definition lastIndexOf :: "char \<Rightarrow> string \<Rightarrow> int" where
  "lastIndexOf c s =
     (if c \<in> set s then int (length s) - 1 - int (length (takeWhile (\<lambda>x. x \<noteq> c) (rev s)))
      else - 1)"

definition substring :: "string \<Rightarrow> int \<Rightarrow> int \<Rightarrow> string" where
  "substring s a b =
     (let len = int (length s);
          a' = max 0 (min a len); b' = max 0 (min b len);
          lo = min a' b'; hi = max a' b'
      in take (nat (hi - lo)) (drop (nat lo) s))"

text \<open>\<^verbatim>\<open>s.slice(1, -1)\<close>\<close>

definition slice_1_m1 :: "string \<Rightarrow> string" where
  "slice_1_m1 s = butlast (tl s)"

text \<open>\<^verbatim>\<open>s.includes(sub)\<close>, \<^verbatim>\<open>s.startsWith(p)\<close>, \<^verbatim>\<open>s.endsWith(p)\<close>\<close>

fun includes_str :: "string \<Rightarrow> string \<Rightarrow> bool" where
  "includes_str sub [] = (sub = [])"
| "includes_str sub (c # cs) = (take (length sub) (c # cs) = sub \<or> includes_str sub cs)"

definition startsWith :: "string \<Rightarrow> string \<Rightarrow> bool" where
  "startsWith s p = (take (length p) s = p)"

definition endsWith :: "string \<Rightarrow> string \<Rightarrow> bool" where
  "endsWith s p = (length p \<le> length s \<and> drop (length s - length p) s = p)"

text \<open>The first two pieces of \<^verbatim>\<open>token.split('*')\<close>; the second is missing without a star.\<close>

definition split_star :: "string \<Rightarrow> string \<times> string option" where
  "split_star token =
     (let first = takeWhile (\<lambda>c. c \<noteq> CHR ''*'') token;
          rest = dropWhile (\<lambda>c. c \<noteq> CHR ''*'') token
      in (first, if rest = [] then None
                 else Some (takeWhile (\<lambda>c. c \<noteq> CHR ''*'') (tl rest))))"

text \<open>\<^verbatim>\<open>/^\w+\[.*\]$/.test(token)\<close>\<close>

definition is_transform_token :: "string \<Rightarrow> bool" where
  "is_transform_token token =
     (let w = takeWhile is_word token; r = dropWhile is_word token
      in w \<noteq> [] \<and> 2 \<le> length r \<and> hd r = CHR ''['' \<and> last r = CHR '']'' \<and>
         list_all (\<lambda>c. \<not> is_line_terminator c) (butlast (tl r)))"

section \<open>Configuration\<close>

record config =
  debug :: bool
  maxRecursionDepth :: int
  preserveEmptyNotes :: bool
  defaultRestValue :: step
  normalizePitches :: bool
  currentDepth :: int

definition defaults :: config where
  "defaults = \<lparr> debug = False, maxRecursionDepth = 10, preserveEmptyNotes = False,
                defaultRestValue = Rest, normalizePitches = False, currentDepth = 0 \<rparr>"

text \<open>\<^verbatim>\<open>parseInt(token)\<close> as an array element.\<close>

definition parse_number :: "string \<Rightarrow> step" where
  "parse_number token = (case parseInt token of None \<Rightarrow> NaN | Some n \<Rightarrow> Note n)"

text \<open>\<^verbatim>\<open>normalizePattern\<close> on the elements the parser produces.\<close>

fun normalize_step :: "step \<Rightarrow> step" where
  "normalize_step Rest = Rest"
| "normalize_step (Note n) =
     (case parseInt (numToString n) of None \<Rightarrow> Note n | Some parsed \<Rightarrow> Note parsed)"
| "normalize_step NaN = NaN"

text \<open>\<^verbatim>\<open>Array(n).fill(v)\<close> for a positive integer \<^verbatim>\<open>n\<close>.\<close>

definition array_fill :: "int \<Rightarrow> step \<Rightarrow> error + step list" where
  "array_fill n v = (if n > 2 ^ 32 - 1 then Inl RangeError else Inr (replicate (nat n) v))"

definition handleDirectRepetition :: "string \<Rightarrow> config \<Rightarrow> error + step list" where
  "handleDirectRepetition token config =
     (case split_star token of
        (val, None) \<Rightarrow> Inr []
      | (val, Some repeat) \<Rightarrow>
          if val = [] \<or> repeat = [] then Inr []
          else (case parseInt repeat of
                  None \<Rightarrow> Inr []
                | Some repeatCount \<Rightarrow>
                    if repeatCount \<le> 0 then Inr []
                    else if val = ''-'' then array_fill repeatCount (defaultRestValue config)
                    else if is_numeric_string val
                         then array_fill repeatCount (parse_number val)
                         else Inr []))"

section \<open>Facts for the termination of the parser\<close>

lemma sum_length_match_all: "sum_list (map length (match_all s)) \<le> length s"
proof (induction s rule: match_all.induct)
  case (1 s)
  show ?case
  proof (cases "s = []")
    case True
    then show ?thesis by (simp add: match_all.simps)
  next
    case ne: False
    show ?thesis
    proof (cases "match_len s")
      case None
      with 1(1)[OF ne None] ne show ?thesis
        by (subst match_all.simps) (cases s; simp)
    next
      case (Some n)
      with 1(2)[OF ne Some] ne show ?thesis
        by (subst match_all.simps) simp
    qed
  qed
qed

lemma match_all_nonempty_tokens: "t \<in> set (match_all s) \<Longrightarrow> t \<noteq> []"
proof (induction s rule: match_all.induct)
  case (1 s)
  show ?case
  proof (cases "s = []")
    case True
    with 1(3) show ?thesis by (simp add: match_all.simps)
  next
    case ne: False
    show ?thesis
    proof (cases "match_len s")
      case None
      with 1(1)[OF ne None] 1(3) ne show ?thesis
        by (simp add: match_all.simps[of s])
    next
      case (Some n)
      with 1(2)[OF ne Some] 1(3) ne match_len_pos[OF Some] show ?thesis
        by (auto simp: match_all.simps[of s])
    qed
  qed
qed

lemma length_le_sum_length: "\<forall>t\<in>set ts. t \<noteq> [] \<Longrightarrow> length ts \<le> sum_list (map length ts)"
proof (induction ts)
  case Nil
  show ?case by simp
next
  case (Cons a ts)
  then have "a \<noteq> []" "length ts \<le> sum_list (map length ts)" by simp_all
  then show ?case by (cases a) simp_all
qed

lemma takeWhile_less_member: "c \<in> set s \<Longrightarrow> length (takeWhile (\<lambda>x. x \<noteq> c) s) < length s"
  by (induction s) auto

lemma length_match_all: "length (match_all s) \<le> length s"
  using length_le_sum_length[of "match_all s"] match_all_nonempty_tokens[of _ s]
    sum_length_match_all[of s] by fastforce

lemma length_js_trim: "length (js_trim s) \<le> length s"
proof -
  have "length (dropWhile is_space (rev (dropWhile is_space s))) \<le> length (rev (dropWhile is_space s))"
    by (rule length_dropWhile_le)
  also have "\<dots> \<le> length s" by (simp add: length_dropWhile_le)
  finally show ?thesis by (simp add: js_trim_def)
qed

lemma length_slice_trim: "s \<noteq> [] \<Longrightarrow> length (js_trim (slice_1_m1 s)) < length s"
  using length_js_trim[of "slice_1_m1 s"] by (cases s) (auto simp: slice_1_m1_def)

lemma lastIndexOf_less: "lastIndexOf c s < int (length s) \<and> - 1 \<le> lastIndexOf c s"
proof (cases "c \<in> set s")
  case True
  then have "c \<in> set (rev s)" by simp
  then have "length (takeWhile (\<lambda>x. x \<noteq> c) (rev s)) < length (rev s)"
    by (rule takeWhile_less_member)
  with True show ?thesis by (auto simp: lastIndexOf_def)
next
  case False
  then show ?thesis by (simp add: lastIndexOf_def)
qed

lemma length_substring_content:
  assumes "\<not> indexOf c s + 1 \<ge> lastIndexOf d s"
  shows "length (substring s (indexOf c s + 1) (lastIndexOf d s)) < length s"
proof -
  have a: "0 \<le> indexOf c s + 1" by (simp add: indexOf_def)
  have b: "lastIndexOf d s < int (length s)" using lastIndexOf_less by blast
  from assms a b show ?thesis
    by (auto simp: substring_def Let_def min_def max_def)
qed


lemma split_star_first_le: "(grp, r) = split_star token \<Longrightarrow> length grp \<le> length token"
  by (auto simp: split_star_def Let_def length_takeWhile_le)

section \<open>parsePatternString and the token handlers\<close>

text \<open>
  \<^verbatim>\<open>i++\<close> on the loop counter of \<^verbatim>\<open>handleGroupWithRepeat\<close>, a double: the sum is rounded,
  so the counter stops growing at \<open>2^53\<close>.
\<close>

definition double_succ :: "int \<Rightarrow> int" where
  "double_succ i = int (round_double (nat (i + 1)))"

text \<open>
  The loops \<^verbatim>\<open>for (let i = 0; i < repeatCount; i++)\<close> that append one more copy of a
  group to an array on every round, by \<^verbatim>\<open>result = result.concat(groupPattern)\<close> here and
  in the fixed rewrite, by \<^verbatim>\<open>result.push(...groupPattern)\<close> in the final one. The
  language lets an array have at most \<open>2^32 - 1\<close> elements; \<^verbatim>\<open>concat\<close> throws a
  \<^verbatim>\<open>RangeError\<close> instead of building a longer one, and \<^verbatim>\<open>push\<close> throws it after filling
  the array up to that length (an engine throws it earlier when it cannot allocate the
  array). The loop returns whether it was left by the error, and the array as it is then.
  The loop need not end, so its result is optional: \<open>None\<close> is a run of the loop that
  never returns.
\<close>

partial_function (option) repeat_loop ::
  "bool \<Rightarrow> int \<Rightarrow> int \<Rightarrow> step list \<Rightarrow> step list \<Rightarrow> (bool \<times> step list) option" where
  "repeat_loop by_push i repeatCount result groupPattern =
     (if i < repeatCount then
        (if length result + length groupPattern > 2 ^ 32 - 1
         then Some (True, if by_push then take (2 ^ 32 - 1) (result @ groupPattern) else result)
         else repeat_loop by_push (double_succ i) repeatCount (result @ groupPattern)
                groupPattern)
      else Some (False, result))"

text \<open>
  The configuration object is shared by all calls and \<^verbatim>\<open>currentDepth\<close> is updated in
  place, so every function returns the configuration with its result, as well as the
  index of the next random draw. A handler returns its array or the exception it raises;
  \<^verbatim>\<open>forEach_token\<close> is the body of \<^verbatim>\<open>tokens.forEach\<close>, whose \<^verbatim>\<open>try\<close>/\<^verbatim>\<open>catch\<close> drops the
  token that raised. A missing match (\<^verbatim>\<open>null\<close>) is the empty token list. The result of
  every function is optional, \<open>None\<close> being a call that never returns because the loop of
  \<^verbatim>\<open>handleGroupWithRepeat\<close> does not end. Outside that loop arrays are lists of any
  length: memory limits are not modelled.
\<close>

function parsePatternString ::
    "(nat \<Rightarrow> real) \<Rightarrow> string \<Rightarrow> config \<Rightarrow> nat \<Rightarrow> (step list \<times> config \<times> nat) option"
  and forEach_token ::
    "(nat \<Rightarrow> real) \<Rightarrow> string list \<Rightarrow> config \<Rightarrow> nat \<Rightarrow> step list
       \<Rightarrow> (step list \<times> config \<times> nat) option"
  and handleTransformation ::
    "(nat \<Rightarrow> real) \<Rightarrow> string \<Rightarrow> config \<Rightarrow> nat
       \<Rightarrow> ((error + step list) \<times> config \<times> nat) option"
  and handleGroupWithRepeat ::
    "(nat \<Rightarrow> real) \<Rightarrow> string \<Rightarrow> config \<Rightarrow> nat
       \<Rightarrow> ((error + step list) \<times> config \<times> nat) option"
where
  "parsePatternString rnd pattern config k =
     (if currentDepth config > maxRecursionDepth config then Some ([], config, k)
      else (case forEach_token rnd (match_all pattern)
                   (config\<lparr>currentDepth := currentDepth config + 1\<rparr>) k [] of
              None \<Rightarrow> None
            | Some (outputPattern, config', k') \<Rightarrow>
                Some (if normalizePitches config' then map normalize_step outputPattern
                      else outputPattern,
                      config'\<lparr>currentDepth := currentDepth config' - 1\<rparr>, k')))"
| "forEach_token rnd [] config k outputPattern = Some (outputPattern, config, k)"
| "forEach_token rnd (token # tokens) config k outputPattern =
     (if is_numeric_string token then
        forEach_token rnd tokens config k (outputPattern @ [parse_number token])
      else if is_transform_token token then
        (case handleTransformation rnd token config k of
           None \<Rightarrow> None
         | Some (result, config', k') \<Rightarrow>
             forEach_token rnd tokens config' k'
               (case result of Inl e \<Rightarrow> outputPattern | Inr r \<Rightarrow> outputPattern @ r))
      else if includes_str '']*'' token then
        (case handleGroupWithRepeat rnd token config k of
           None \<Rightarrow> None
         | Some (result, config', k') \<Rightarrow>
             forEach_token rnd tokens config' k'
               (case result of Inl e \<Rightarrow> outputPattern | Inr r \<Rightarrow> outputPattern @ r))
      else if startsWith token ''['' \<and> endsWith token '']'' then
        (case parsePatternString rnd (js_trim (slice_1_m1 token)) config k of
           None \<Rightarrow> None
         | Some (groupPattern, config', k') \<Rightarrow>
             forEach_token rnd tokens config' k' (outputPattern @ groupPattern))
      else if CHR ''*'' \<in> set token then
        forEach_token rnd tokens config k
          (case handleDirectRepetition token config of
             Inl e \<Rightarrow> outputPattern | Inr r \<Rightarrow> outputPattern @ r)
      else if token = ''-'' then
        forEach_token rnd tokens config k (outputPattern @ [defaultRestValue config])
      else (case parseInt token of
              None \<Rightarrow> forEach_token rnd tokens config k outputPattern
            | Some parsedToken \<Rightarrow>
                forEach_token rnd tokens config k (outputPattern @ [Note parsedToken])))"
| "handleTransformation rnd token config k =
     (let transformName = substring token 0 (indexOf CHR ''['' token);
          contentStart = indexOf CHR ''['' token + 1;
          contentEnd = lastIndexOf CHR '']'' token
      in if contentStart \<ge> contentEnd then Some (Inr [], config, k)
         else (case parsePatternString rnd (substring token contentStart contentEnd) config k of
                 None \<Rightarrow> None
               | Some (groupPattern, config', k') \<Rightarrow>
                   (case transformPattern rnd transformName groupPattern k' of
                      Inl e \<Rightarrow> Some (Inl e, config', k')
                    | Inr (r, k'') \<Rightarrow> Some (Inr r, config', k''))))"
| "handleGroupWithRepeat rnd token config k =
     (case split_star token of
        (grp, None) \<Rightarrow> Some (Inr [], config, k)
      | (grp, Some repeat) \<Rightarrow>
          if grp = [] \<or> repeat = [] then Some (Inr [], config, k)
          else (case parseInt repeat of
                  None \<Rightarrow> Some (Inr [], config, k)
                | Some repeatCount \<Rightarrow>
                    if repeatCount \<le> 0 then Some (Inr [], config, k)
                    else (case parsePatternString rnd (js_trim (slice_1_m1 grp)) config k of
                            None \<Rightarrow> None
                          | Some (groupPattern, config', k') \<Rightarrow>
                              (case repeat_loop False 0 repeatCount [] groupPattern of
                                 None \<Rightarrow> None
                               | Some (raised, result) \<Rightarrow>
                                   Some (if raised then Inl RangeError else Inr result,
                                         config', k')))))"
  by pat_completeness auto
termination
  apply (relation "inv_image (less_than <*lex*> less_than)
      (\<lambda>x. case x of
         Inl (Inl (rnd, pattern, config, k)) \<Rightarrow> (length pattern, length pattern + 2)
       | Inl (Inr (rnd, tokens, config, k, out)) \<Rightarrow> (sum_list (map length tokens), length tokens + 1)
       | Inr (Inl (rnd, token, config, k)) \<Rightarrow> (length token, 0)
       | Inr (Inr (rnd, token, config, k)) \<Rightarrow> (length token, 0))")
  using length_match_all
  by (auto simp: le_imp_less_Suc startsWith_def
      intro: le_neq_trans[OF sum_length_match_all]
      dest!: split_star_first_le
      intro: length_slice_trim length_substring_content le_less_trans[OF _ length_slice_trim]
             order.strict_trans2[OF length_slice_trim])

declare parsePatternString.simps [simp del] handleTransformation.simps [simp del]
  handleGroupWithRepeat.simps [simp del]

definition parsePattern ::
  "(nat \<Rightarrow> real) \<Rightarrow> string \<Rightarrow> config \<Rightarrow> nat \<Rightarrow> (step list \<times> nat) option" where
  "parsePattern rnd pattern options k =
     (if pattern = [] then Some ([], k)
      else (case parsePatternString rnd pattern (options\<lparr>currentDepth := 0\<rparr>) k of
              None \<Rightarrow> None
            | Some (outputPattern, config', k') \<Rightarrow> Some (outputPattern, k')))"

fun step_to_string :: "step \<Rightarrow> string" where
  "step_to_string Rest = ''-''"
| "step_to_string (Note n) = numToString n"
| "step_to_string NaN = ''NaN''"

fun join_space :: "string list \<Rightarrow> string" where
  "join_space [] = []"
| "join_space [x] = x"
| "join_space (x # y # ys) = x @ '' '' @ join_space (y # ys)"

definition patternToString :: "step list \<Rightarrow> string" where
  "patternToString pattern = join_space (map step_to_string pattern)"

lemmas parser_simps = parsePattern_def parsePatternString.simps handleTransformation.simps
  handleGroupWithRepeat.simps handleDirectRepetition_def match_all.simps tok_defs num_defs
  is_transform_token_def startsWith_def endsWith_def slice_1_m1_def split_star_def
  indexOf_def lastIndexOf_def substring_def parse_number_def parseInt_def string_class_defs
  defaults_def array_fill_def


section \<open>Properties of the parser\<close>

text \<open>\<^verbatim>\<open>normalize_step\<close> is \<^verbatim>\<open>normalizePattern\<close> on the values the parser produces.\<close>

lemma normalize_step_refines:
  "map step_val (map normalize_step xs) = normalizePattern (map step_val xs)"
proof -
  have nan: "parseInt ''NaN'' = None" by (simp add: parseInt_def string_class_defs)
  have "step_val (normalize_step x) = normalize_item (step_val x)" for x
    by (cases x) (simp_all add: normalize_item_def nan split: option.splits)
  then show ?thesis by (simp add: normalizePattern_def)
qed

lemma transformPattern_empty: "transformPattern rnd name [] k = Inr ([], k)"
  by (simp add: transformPattern_def Let_def shuffleArray_def repeat_notes_def
      rotate_pattern_def split: option.splits)

lemma replicate_numeral: "replicate (numeral n) x = x # replicate (pred_numeral n) x"
  by (simp add: numeral_eq_Suc)

text \<open>The loop counter: it advances by one up to \<open>2^53\<close> and stays there.\<close>

lemma round_double_le: "m \<le> 2 ^ 53 \<Longrightarrow> round_double m = m"
proof (cases "m < 2 ^ 53")
  case True
  then show ?thesis by (simp add: round_double_def)
next
  case False
  assume "m \<le> 2 ^ 53"
  with False have m: "m = 2 ^ 53" by simp
  show ?thesis unfolding m by (simp add: round_double_def bit_length.simps)
qed

lemma round_double_sticks: "round_double (2 ^ 53 + 1) = 2 ^ 53"
  by (simp add: round_double_def bit_length.simps)

lemma double_succ_below: "0 \<le> i \<Longrightarrow> i < 2 ^ 53 \<Longrightarrow> double_succ i = i + 1"
proof -
  assume a: "0 \<le> i" "i < 2 ^ 53"
  then have "nat (i + 1) \<le> 2 ^ 53" by (simp add: nat_le_iff)
  then have "round_double (nat (i + 1)) = nat (i + 1)" by (rule round_double_le)
  then show ?thesis using a by (simp add: double_succ_def)
qed

lemma double_succ_sticks: "double_succ (2 ^ 53) = 2 ^ 53"
proof -
  have "nat (2 ^ 53 + 1) = 2 ^ 53 + 1" by simp
  then show ?thesis using round_double_sticks by (simp add: double_succ_def)
qed

text \<open>
  With an empty group the array does not grow, and with a count above \<open>2^53\<close> the counter
  never reaches the count: no run of the loop returns.
\<close>

lemma repeat_loop_diverges_aux:
  assumes "repeat_loop b i c r g = Some y"
  shows "\<not> (0 \<le> i \<and> i \<le> 2 ^ 53 \<and> 2 ^ 53 < c \<and> length r \<le> 2 ^ 32 - 1 \<and> g = [])"
proof (rule repeat_loop.raw_induct
    [where P = "\<lambda>b i c r g y.
       \<not> (0 \<le> i \<and> i \<le> 2 ^ 53 \<and> 2 ^ 53 < c \<and> length r \<le> 2 ^ 32 - 1 \<and> g = [])",
     OF _ assms])
  fix loop :: "bool \<Rightarrow> int \<Rightarrow> int \<Rightarrow> step list \<Rightarrow> step list \<Rightarrow> (bool \<times> step list) option"
  fix b and i c :: int and r g :: "step list" and y
  assume IH: "\<And>b i c r g y. loop b i c r g = Some y \<Longrightarrow>
      \<not> (0 \<le> i \<and> i \<le> 2 ^ 53 \<and> 2 ^ 53 < c \<and> length r \<le> 2 ^ 32 - 1 \<and> g = [])"
    and body: "(if i < c
                then if 2 ^ 32 - 1 < length r + length g
                     then Some (True, if b then take (2 ^ 32 - 1) (r @ g) else r)
                     else loop b (double_succ i) c (r @ g) g
                else Some (False, r)) = Some y"
  show "\<not> (0 \<le> i \<and> i \<le> 2 ^ 53 \<and> 2 ^ 53 < c \<and> length r \<le> 2 ^ 32 - 1 \<and> g = [])"
  proof
    assume a: "0 \<le> i \<and> i \<le> 2 ^ 53 \<and> 2 ^ 53 < c \<and> length r \<le> 2 ^ 32 - 1 \<and> g = []"
    then have lt: "i < c" by simp
    have next_ok: "0 \<le> double_succ i \<and> double_succ i \<le> 2 ^ 53"
    proof (cases "i < 2 ^ 53")
      case True
      then show ?thesis using a double_succ_below[of i] by simp
    next
      case False
      then have "i = 2 ^ 53" using a by simp
      then show ?thesis using double_succ_sticks by simp
    qed
    from body lt a have "loop b (double_succ i) c r [] = Some y" by simp
    from IH[OF this] next_ok a show False by simp
  qed
qed

lemma repeat_loop_diverges:
  assumes "0 \<le> i" "i \<le> 2 ^ 53" "2 ^ 53 < c" "length r \<le> 2 ^ 32 - 1"
  shows "repeat_loop b i c r [] = None"
proof (cases "repeat_loop b i c r []")
  case None
  then show ?thesis .
next
  case (Some y)
  from repeat_loop_diverges_aux[OF Some] assms show ?thesis by simp
qed

text \<open>
  With a count of at most \<open>2^53\<close> and a result within the largest array length the loop
  returns the copies of the group.
\<close>

lemma repeat_loop_returns:
  assumes "0 \<le> i" "i \<le> c" "c \<le> 2 ^ 53"
    "length r + nat (c - i) * length g \<le> 2 ^ 32 - 1"
  shows "repeat_loop b i c r g = Some (False, r @ concat (replicate (nat (c - i)) g))"
  using assms
proof (induction "nat (c - i)" arbitrary: i r)
  case 0
  then have "i = c" by simp
  then show ?case by (simp add: repeat_loop.simps)
next
  case (Suc n)
  then have lt: "i < c" by linarith
  then have i53: "i < 2 ^ 53" using Suc.prems(3) by simp
  have ds: "double_succ i = i + 1" using Suc.prems(1) i53 by (rule double_succ_below)
  have n: "n = nat (c - (i + 1))" using Suc.hyps(2) by linarith
  have cnt: "nat (c - i) = Suc (nat (c - (i + 1)))" using lt by linarith
  have room: "length r + length g \<le> 2 ^ 32 - 1"
    using Suc.prems(4) unfolding cnt by simp
  have room': "length (r @ g) + nat (c - (i + 1)) * length g \<le> 2 ^ 32 - 1"
    using Suc.prems(4) unfolding cnt by simp
  have "repeat_loop b (i + 1) c (r @ g) g
          = Some (False, (r @ g) @ concat (replicate (nat (c - (i + 1))) g))"
    using Suc.hyps(1)[OF n _ _ Suc.prems(3) room'] Suc.prems(1) lt by simp
  then show ?case
    using lt room ds cnt by (subst repeat_loop.simps) simp
qed

lemma parser_restores_config:
  "\<forall>out' c' k'. parsePatternString rnd pattern config k = Some (out', c', k') \<longrightarrow> c' = config"
  "\<forall>out' c' k'. forEach_token rnd tokens config k out = Some (out', c', k') \<longrightarrow> c' = config"
  "\<forall>r c' k'. handleTransformation rnd token config k = Some (r, c', k') \<longrightarrow> c' = config"
  "\<forall>r c' k'. handleGroupWithRepeat rnd token config k = Some (r, c', k') \<longrightarrow> c' = config"
proof (induction rnd pattern config k and rnd tokens config k out and rnd token config k
       and rnd token config k
       rule: parsePatternString_forEach_token_handleTransformation_handleGroupWithRepeat.induct)
  case (1 rnd pattern config k)
  show ?case
  proof (cases "currentDepth config > maxRecursionDepth config")
    case True
    then show ?thesis by (simp add: parsePatternString.simps)
  next
    case False
    show ?thesis
    proof (cases "forEach_token rnd (match_all pattern)
                    (config\<lparr>currentDepth := currentDepth config + 1\<rparr>) k []")
      case None
      with False show ?thesis by (simp add: parsePatternString.simps[of rnd pattern config k])
    next
      case (Some x)
      obtain o1 c1 k1 where x: "x = (o1, c1, k1)" by (cases x) auto
      from 1[OF False] Some x
      have "c1 = config\<lparr>currentDepth := currentDepth config + 1\<rparr>" by simp
      with Some x False show ?thesis
        by (simp add: parsePatternString.simps[of rnd pattern config k])
    qed
  qed
next
  case (2 rnd config k outputPattern)
  show ?case by simp
next
  case (3 rnd token tokens config k outputPattern)
  note ih = 3
  show ?case
  proof (cases "is_numeric_string token")
    case True
    with ih(1) show ?thesis by simp
  next
    case n1: False
    show ?thesis
    proof (cases "is_transform_token token")
      case True
      show ?thesis
      proof (cases "handleTransformation rnd token config k")
        case None
        with n1 True show ?thesis by simp
      next
        case (Some x)
        obtain r c1 k1 where x: "x = (r, c1, k1)" by (cases x) auto
        from ih(2)[OF n1 True] Some x have c1: "c1 = config" by simp
        from ih(3)[OF n1 True Some, of r "(c1, k1)" c1 k1] x c1 n1 True Some
        show ?thesis by simp
      qed
    next
      case n2: False
      show ?thesis
      proof (cases "includes_str '']*'' token")
        case True
        show ?thesis
        proof (cases "handleGroupWithRepeat rnd token config k")
          case None
          with n1 n2 True show ?thesis by simp
        next
          case (Some x)
          obtain r c1 k1 where x: "x = (r, c1, k1)" by (cases x) auto
          from ih(4)[OF n1 n2 True] Some x have c1: "c1 = config" by simp
          from ih(5)[OF n1 n2 True Some, of r "(c1, k1)" c1 k1] x c1 n1 n2 True Some
          show ?thesis by simp
        qed
      next
        case n3: False
        show ?thesis
        proof (cases "startsWith token ''['' \<and> endsWith token '']''")
          case True
          show ?thesis
          proof (cases "parsePatternString rnd (js_trim (slice_1_m1 token)) config k")
            case None
            with n1 n2 n3 True show ?thesis by simp
          next
            case (Some x)
            obtain r c1 k1 where x: "x = (r, c1, k1)" by (cases x) auto
            from ih(6)[OF n1 n2 n3 True] Some x have c1: "c1 = config" by simp
            from ih(7)[OF n1 n2 n3 True Some, of r "(c1, k1)" c1 k1] x c1 n1 n2 n3 True Some
            show ?thesis by simp
          qed
        next
          case n4: False
          show ?thesis
          proof (cases "CHR ''*'' \<in> set token")
            case True
            from ih(8)[OF n1 n2 n3 n4 True] n1 n2 n3 True show ?thesis by (simp add: n4)
          next
            case n5: False
            show ?thesis
            proof (cases "token = ''-''")
              case True
              from ih(9)[OF n1 n2 n3 n4 n5 True] n1 n2 n3 n5 True show ?thesis
                by (simp add: startsWith_def endsWith_def)
            next
              case n6: False
              show ?thesis
              proof (cases "parseInt token")
                case None
                from ih(10)[OF n1 n2 n3 n4 n5 n6 None] n1 n2 n3 n5 n6 None
                show ?thesis by (simp add: n4)
              next
                case (Some x2)
                from ih(11)[OF n1 n2 n3 n4 n5 n6 Some] n1 n2 n3 n5 n6 Some
                show ?thesis by (simp add: n4)
              qed
            qed
          qed
        qed
      qed
    qed
  qed
next
  case (4 rnd token config k)
  show ?case
  proof (cases "lastIndexOf CHR '']'' token \<le> indexOf CHR ''['' token + 1")
    case True
    then show ?thesis by (simp add: handleTransformation.simps[of rnd token config k])
  next
    case False
    show ?thesis
    proof (cases "parsePatternString rnd
        (substring token (indexOf CHR ''['' token + 1) (lastIndexOf CHR '']'' token)) config k")
      case None
      with False show ?thesis
        by (simp add: handleTransformation.simps[of rnd token config k] Let_def)
    next
      case (Some x)
      obtain r c1 k1 where x: "x = (r, c1, k1)" by (cases x) auto
      from 4[OF refl refl refl False] Some x have "c1 = config" by simp
      with Some x False show ?thesis
        by (simp add: handleTransformation.simps[of rnd token config k] Let_def
            split: sum.splits prod.splits)
    qed
  qed
next
  case (5 rnd token config k)
  obtain g rp where ss: "split_star token = (g, rp)" by (metis prod.exhaust)
  show ?case
  proof (cases rp)
    case None
    with ss show ?thesis by (simp add: handleGroupWithRepeat.simps[of rnd token config k])
  next
    case (Some rep)
    show ?thesis
    proof (cases "g = [] \<or> rep = []")
      case True
      with ss Some show ?thesis
        by (simp add: handleGroupWithRepeat.simps[of rnd token config k])
    next
      case ne: False
      show ?thesis
      proof (cases "parseInt rep")
        case None
        with ss Some ne show ?thesis
          by (simp add: handleGroupWithRepeat.simps[of rnd token config k])
      next
        case (Some n)
        note pn = Some
        show ?thesis
        proof (cases "n \<le> 0")
          case True
          with ss \<open>rp = Some rep\<close> ne pn show ?thesis
            by (simp add: handleGroupWithRepeat.simps[of rnd token config k])
        next
          case False
          show ?thesis
          proof (cases "parsePatternString rnd (js_trim (slice_1_m1 g)) config k")
            case None
            with ss \<open>rp = Some rep\<close> ne pn False show ?thesis
              by (simp add: handleGroupWithRepeat.simps[of rnd token config k])
          next
            case (Some x)
            obtain r c1 k1 where x: "x = (r, c1, k1)" by (cases x) auto
            from 5[OF ss[symmetric] \<open>rp = Some rep\<close> ne pn False] Some x
            have "c1 = config" by simp
            with Some x ss \<open>rp = Some rep\<close> ne pn False show ?thesis
              by (simp add: handleGroupWithRepeat.simps[of rnd token config k]
                  split: option.splits)
          qed
        qed
      qed
    qed
  qed
qed

text \<open>
  Claim C7: \<^verbatim>\<open>parsePattern("scale2[1 2 3]")\<close> with the default options is 2 4 6. The
  identifier \<^verbatim>\<open>scale2\<close> splits into \<^verbatim>\<open>scale\<close> and the digits \<^verbatim>\<open>2\<close>, the bracket contents
  compile to 1 2 3 one level down, and \<^verbatim>\<open>scale2\<close> multiplies every note of any sequence
  by 2.
\<close>

theorem scale2_example:
  "parsePattern rnd ''scale2[1 2 3]'' defaults k = Some ([Note 2, Note 4, Note 6], k) \<and>
   paramMatch ''scale2'' = Some (''scale'', ''2'') \<and>
   parsePatternString rnd ''1 2 3'' (defaults\<lparr>currentDepth := 1\<rparr>) k
     = Some ([Note 1, Note 2, Note 3], defaults\<lparr>currentDepth := 1\<rparr>, k) \<and>
   transformPattern rnd ''scale2'' pattern k = Inr (map (scale_note 2) pattern, k)"
  by (simp add: parser_simps transformPattern_def paramMatch_def)

text \<open>
  Claim C8: \<^verbatim>\<open>parsePattern("[1 2]*3")\<close> with the default options is 1 2 1 2 1 2. The
  pattern is one token; its handler compiles the bracket contents once and returns three
  copies of that sequence in order.
\<close>

theorem group_repeat_example:
  "parsePattern rnd ''[1 2]*3'' defaults k
     = Some ([Note 1, Note 2, Note 1, Note 2, Note 1, Note 2], k) \<and>
   match_all ''[1 2]*3'' = [''[1 2]*3''] \<and>
   handleGroupWithRepeat rnd ''[1 2]*3'' config k
     = (case parsePatternString rnd ''1 2'' config k of
          None \<Rightarrow> None
        | Some (groupPattern, config', k') \<Rightarrow>
            Some (Inr (groupPattern @ groupPattern @ groupPattern), config', k'))"
proof -
  have whole: "parsePattern rnd ''[1 2]*3'' defaults k
     = Some ([Note 1, Note 2, Note 1, Note 2, Note 1, Note 2], k)"
    by (simp add: parser_simps repeat_loop.simps double_succ_def)
  have tokens: "match_all ''[1 2]*3'' = [''[1 2]*3'']"
    by (simp add: match_all.simps tok_defs)
  have loop: "repeat_loop False 0 3 [] g = Some (False, g @ g @ g)" if "length g \<le> 2" for g
    using that by (simp add: repeat_loop.simps double_succ_def round_double_def)
  have inner: "length g \<le> 2" if "parsePatternString rnd ''1 2'' config k = Some (g, c, k')"
    for g c k'
    using that
    by (auto simp: parser_simps split: if_splits)
  have h: "handleGroupWithRepeat rnd ''[1 2]*3'' config k
     = (case parsePatternString rnd ''1 2'' config k of
          None \<Rightarrow> None
        | Some (g, c', k') \<Rightarrow>
            (case repeat_loop False 0 3 [] g of
               None \<Rightarrow> None
             | Some (raised, res) \<Rightarrow>
                 Some (if raised then Inl RangeError else Inr res, c', k')))"
    by (simp add: handleGroupWithRepeat.simps split_star_def slice_1_m1_def js_trim_def
        parseInt_def string_class_defs)
  have third: "handleGroupWithRepeat rnd ''[1 2]*3'' config k
     = (case parsePatternString rnd ''1 2'' config k of
          None \<Rightarrow> None
        | Some (groupPattern, config', k') \<Rightarrow>
            Some (Inr (groupPattern @ groupPattern @ groupPattern), config', k'))"
  proof (cases "parsePatternString rnd ''1 2'' config k")
    case None
    then show ?thesis by (simp add: h)
  next
    case (Some x)
    obtain g c k' where x: "x = (g, c, k')" by (cases x) auto
    from inner[OF Some[unfolded x]] have "repeat_loop False 0 3 [] g = Some (False, g @ g @ g)"
      by (rule loop)
    with Some x show ?thesis by (simp add: h)
  qed
  from whole tokens third show ?thesis by simp
qed

text \<open>
  Claim C3, at an input where the code departs from it: the flat pattern
  \<^verbatim>\<open>Infinity\<close> passes \<^verbatim>\<open>!isNaN(token)\<close>, \<^verbatim>\<open>parseInt\<close> of it is \<^verbatim>\<open>NaN\<close>, and the output
  \<^verbatim>\<open>[NaN]\<close> is written \<^verbatim>\<open>NaN\<close>, which compiles to the empty sequence.
\<close>

theorem nan_round_trip_fails:
  "parsePattern no_random ''Infinity'' defaults 0 = Some ([NaN], 0) \<and>
   patternToString [NaN] = ''NaN'' \<and>
   parsePattern no_random ''NaN'' defaults 0 = Some ([], 0)"
  by (simp add: parser_simps patternToString_def)

text \<open>The count a repetition handler reads: \<^verbatim>\<open>parseInt\<close> of the text after the first star.\<close>

definition repeat_count :: "string \<Rightarrow> int option" where
  "repeat_count token =
     (case split_star token of (val, None) \<Rightarrow> None | (val, Some repeat) \<Rightarrow> parseInt repeat)"





text \<open>
  Claim C5, at an input where the code departs from it. The pattern
  \<^verbatim>\<open>[]*99999999999999999\<close> is one token, a group with a repeat count.
  \<^verbatim>\<open>handleGroupWithRepeat\<close> reads the count as the double \<open>10^17\<close>, compiles the empty
  group to the empty sequence one level down, and enters
  \<^verbatim>\<open>for (let i = 0; i < repeatCount; i++)\<close>, which never ends: \<^verbatim>\<open>i++\<close> changes nothing
  once \<^verbatim>\<open>i\<close> is \<open>2^53\<close>, which is below the count, and the body allocates nothing, so no
  error interrupts it. \<^verbatim>\<open>parsePattern\<close> does not return. The depth bound plays no part:
  the nesting depth is 1. The sibling handler ends on the same count: in
  \<^verbatim>\<open>-*99999999999999999\<close> the call \<^verbatim>\<open>Array(repeatCount)\<close> raises a \<^verbatim>\<open>RangeError\<close>, the
  token loop catches it, and the result is the empty sequence.
\<close>

theorem huge_count_on_empty_group_never_returns:
  "match_all ''[]*99999999999999999'' = [''[]*99999999999999999''] \<and>
   parseInt ''99999999999999999'' = Some (10 ^ 17) \<and>
   parsePatternString rnd [] (defaults\<lparr>currentDepth := 1\<rparr>) k
     = Some ([], defaults\<lparr>currentDepth := 1\<rparr>, k) \<and>
   repeat_loop False 0 (10 ^ 17) [] [] = None \<and>
   parsePattern rnd ''[]*99999999999999999'' defaults k = None \<and>
   parsePattern rnd ''-*99999999999999999'' defaults k = Some ([], k)"
proof -
  have tokens: "match_all ''[]*99999999999999999'' = [''[]*99999999999999999'']"
    by (simp add: match_all.simps tok_defs)
  have count: "parseInt ''99999999999999999'' = Some (10 ^ 17)"
    by (simp add: parseInt_def string_class_defs bit_length.simps)
  have inner: "parsePatternString rnd [] (defaults\<lparr>currentDepth := 1\<rparr>) k
     = Some ([], defaults\<lparr>currentDepth := 1\<rparr>, k)"
    by (simp add: parsePatternString.simps match_all.simps defaults_def)
  have loop: "repeat_loop False 0 (10 ^ 17) [] [] = None"
    by (rule repeat_loop_diverges) simp_all
  have handler: "handleGroupWithRepeat rnd ''[]*99999999999999999''
                   (defaults\<lparr>currentDepth := 1\<rparr>) k = None"
    using count inner loop
    by (simp add: handleGroupWithRepeat.simps split_star_def slice_1_m1_def js_trim_def)
  have dispatch: "\<not> is_numeric_string ''[]*99999999999999999''"
    "\<not> is_transform_token ''[]*99999999999999999''"
    "includes_str '']*'' ''[]*99999999999999999''"
    by (simp_all add: num_defs is_transform_token_def tok_defs)
  have whole: "parsePattern rnd ''[]*99999999999999999'' defaults k = None"
    using tokens handler dispatch
    by (simp add: parsePattern_def parsePatternString.simps defaults_def)
  have sibling: "parsePattern rnd ''-*99999999999999999'' defaults k = Some ([], k)"
    by (simp add: parser_simps bit_length.simps)
  from tokens count inner loop whole sibling show ?thesis by simp
qed

text \<open>
  The depth bound itself works as claim C5 describes it: with
  \<^verbatim>\<open>currentDepth > maxRecursionDepth\<close>, \<^verbatim>\<open>parsePatternString\<close> returns the empty sequence
  for every string and leaves the state as it is, so a transform token, a plain group
  token and a group-repeat token with a count of at most a million each contribute the
  empty sequence, and the tokens after a plain group are compiled as if it were absent.
  (The loop of a group-repeat token still runs its rounds on the empty sequence.)
\<close>

theorem depth_guard:
  assumes "currentDepth config > maxRecursionDepth config"
  shows "parsePatternString rnd pattern config k = Some ([], config, k) \<and>
         ((\<forall>n. repeat_count token = Some n \<longrightarrow> n \<le> 1000000)
          \<longrightarrow> handleGroupWithRepeat rnd token config k = Some (Inr [], config, k)) \<and>
         handleTransformation rnd token config k = Some (Inr [], config, k) \<and>
         (\<not> is_numeric_string token \<and> \<not> is_transform_token token \<and>
          \<not> includes_str '']*'' token \<and> startsWith token ''['' \<and> endsWith token '']''
          \<longrightarrow> forEach_token rnd (token # tokens) config k out
                = forEach_token rnd tokens config k out)"
proof -
  have p: "parsePatternString rnd s config k = Some ([], config, k)" for s
    using assms by (simp add: parsePatternString.simps)
  have g: "handleGroupWithRepeat rnd token config k = Some (Inr [], config, k)"
    if small: "\<forall>n. repeat_count token = Some n \<longrightarrow> n \<le> 1000000"
  proof -
    obtain grp rp where ss: "split_star token = (grp, rp)" by (cases "split_star token")
    show ?thesis
    proof (cases rp)
      case None
      with ss show ?thesis by (simp add: handleGroupWithRepeat.simps)
    next
      case (Some rep)
      note rp = Some
      show ?thesis
      proof (cases "parseInt rep")
        case None
        with ss rp show ?thesis by (simp add: handleGroupWithRepeat.simps)
      next
        case (Some n)
        have "n \<le> 1000000" using small ss rp Some by (simp add: repeat_count_def)
        then have le: "n \<le> 2 ^ 53" by simp
        show ?thesis
        proof (cases "0 < n")
          case True
          have "repeat_loop False 0 n [] []
                  = Some (False, [] @ concat (replicate (nat (n - 0)) []))"
            using True le by (intro repeat_loop_returns) simp_all
          then have "repeat_loop False 0 n [] [] = Some (False, [])" by simp
          with ss rp Some p show ?thesis by (simp add: handleGroupWithRepeat.simps)
        next
          case False
          with ss rp Some show ?thesis by (simp add: handleGroupWithRepeat.simps)
        qed
      qed
    qed
  qed
  have t: "handleTransformation rnd token config k = Some (Inr [], config, k)"
    by (simp add: handleTransformation.simps p transformPattern_empty Let_def)
  show ?thesis using p g t by simp
qed

theorem depth_guard_witness:
  "parsePatternString no_random ''1 2'' (defaults\<lparr>maxRecursionDepth := 0, currentDepth := 1\<rparr>) 0
     = Some ([], defaults\<lparr>maxRecursionDepth := 0, currentDepth := 1\<rparr>, 0) \<and>
   handleGroupWithRepeat no_random ''[1 2]*3''
       (defaults\<lparr>maxRecursionDepth := 0, currentDepth := 1\<rparr>) 0
     = Some (Inr [], defaults\<lparr>maxRecursionDepth := 0, currentDepth := 1\<rparr>, 0) \<and>
   parsePattern no_random ''[1 2] 3'' (defaults\<lparr>maxRecursionDepth := 0\<rparr>) 0
     = Some ([Note 3], 0) \<and>
   parsePattern no_random ''[1 2] 3'' defaults 0 = Some ([Note 1, Note 2, Note 3], 0)"
proof -
  let ?c = "defaults\<lparr>maxRecursionDepth := 0, currentDepth := 1\<rparr>"
  have d: "currentDepth ?c > maxRecursionDepth ?c" by simp
  have n: "\<forall>n. repeat_count ''[1 2]*3'' = Some n \<longrightarrow> n \<le> 1000000"
    by (simp add: repeat_count_def split_star_def parseInt_def string_class_defs)
  from depth_guard[OF d, of no_random "''1 2''" 0 "''[1 2]*3''" "[]" "[]"] n
  have a: "parsePatternString no_random ''1 2'' ?c 0 = Some ([], ?c, 0)"
    and a': "handleGroupWithRepeat no_random ''[1 2]*3'' ?c 0 = Some (Inr [], ?c, 0)"
    by blast+
  have b: "parsePattern no_random ''[1 2] 3'' (defaults\<lparr>maxRecursionDepth := 0\<rparr>) 0
             = Some ([Note 3], 0)"
    by (simp add: parser_simps)
  have c: "parsePattern no_random ''[1 2] 3'' defaults 0 = Some ([Note 1, Note 2, Note 3], 0)"
    by (simp add: parser_simps)
  from a a' b c show ?thesis by simp
qed


section \<open>Further properties\<close>

lemma is_digit_not_lower: "is_digit c \<Longrightarrow> \<not> is_lower c"
  by (auto simp: is_digit_def is_lower_def Let_def)

lemma paramMatch_rotate_n: "paramMatch (''rotate'' @ nat_to_string n) = Some (''rotate'', nat_to_string n)"
proof -
  have d: "\<forall>c\<in>set (nat_to_string n). is_digit c" by (rule nat_to_string_digits)
  obtain a rest where ds: "nat_to_string n = a # rest"
    using nat_to_string_nonempty[of n] by (cases "nat_to_string n") auto
  have a: "\<not> is_lower a" using d ds by (simp add: is_digit_not_lower)
  have tw: "takeWhile is_digit (nat_to_string n) = nat_to_string n"
    using d by (rule takeWhile_all)
  have "paramMatch (''rotate'' @ a # rest) = Some (''rotate'', takeWhile is_digit (a # rest))"
    using a by (simp add: paramMatch_def is_lower_def)
  then show ?thesis using tw ds by simp
qed

text \<open>
  A rotation by the length of the sequence, written as the decimal parameter of the name,
  returns the sequence (the half of claim C1 that the code keeps). An array has fewer
  than \<open>2^32\<close> elements.
\<close>

theorem rotate_by_length_identity:
  assumes "length s < 2 ^ 32"
  shows "transformPattern rnd (''rotate'' @ nat_to_string (length s)) s k = Inr (s, k)"
proof -
  have "length s < 2 ^ 53" using assms by simp
  then have "round_double (length s) = length s" by (rule round_double_safe)
  then show ?thesis
    unfolding transformPattern_def paramMatch_rotate_n
    by (simp add: nat_to_string_nonempty parse_digits_nat_to_string rotate_pattern_length)
qed

theorem rotate_by_length_identity_witness:
  "transformPattern no_random ''rotate3'' [Note 1, Rest, Note 3] 0
     = Inr ([Note 1, Rest, Note 3], 0)"
proof -
  have e: "''rotate'' @ nat_to_string (length [Note 1, Rest, Note 3]) = ''rotate3''"
    by (simp add: nat_to_string.simps digit_char_def)
  show ?thesis
    using rotate_by_length_identity[of "[Note 1, Rest, Note 3]" no_random 0]
    unfolding e by simp
qed

text \<open>\<^verbatim>\<open>reverse\<close> applied twice gives the sequence back.\<close>

theorem reverse_twice_identity:
  "transformPattern rnd ''reverse'' s k = Inr (rev s, k) \<and>
   transformPattern rnd ''reverse'' (rev s) k = Inr (s, k)"
  by (simp add: transformPattern_def paramMatch_def char_class_defs)

text \<open>\<^verbatim>\<open>mirror\<close> appends the reverse of all but the last element: \<open>2n - 1\<close> elements.\<close>

theorem mirror_example_and_length:
  "transformPattern rnd ''mirror'' [Note 1, Note 2, Note 3] k
     = Inr ([Note 1, Note 2, Note 3, Note 2, Note 1], k) \<and>
   transformPattern rnd ''mirror'' s k = Inr (s @ rev (butlast s), k) \<and>
   length (s @ rev (butlast s)) = 2 * length s - 1"
  by (auto simp: transformPattern_def paramMatch_def char_class_defs)

text \<open>The compile examples of the specification, with the default options.\<close>

theorem compile_examples:
  "parsePattern rnd ''1 2 3'' defaults k = Some ([Note 1, Note 2, Note 3], k) \<and>
   parsePattern rnd ''- 1 -*3'' defaults k = Some ([Rest, Note 1, Rest, Rest, Rest], k) \<and>
   parsePattern rnd ''invert5[1 9]'' defaults k = Some ([Note 9, Note 1], k)"
  by (simp add: parser_simps transformPattern_def paramMatch_def replicate_numeral)

text \<open>
  Every element \<^verbatim>\<open>createRandomPattern\<close> returns is a rest or a note within
  \<^verbatim>\<open>[minValue, maxValue]\<close>, whatever the random source draws.
\<close>

theorem random_pattern_values_in_range:
  assumes "minValue config \<le> maxValue config"
  shows "list_all (in_range config) (fst (createRandomPattern rnd config k))"
  using createRandomPattern_in_range[OF assms] by (simp add: list_all_iff)

theorem random_pattern_values_in_range_witness:
  "list_all (in_range random_defaults) (fst (createRandomPattern late_repeat_source random_defaults 0))"
  by (rule random_pattern_values_in_range) (simp add: random_defaults_def)

text \<open>
  Without groups the result has at least \<^verbatim>\<open>length\<close> and at most \<^verbatim>\<open>length + 3\<close> elements.
\<close>

theorem random_pattern_length_bounds:
  assumes "groupProbability config \<le> 0"
  shows "length_opt config \<le> length (fst (createRandomPattern rnd config k)) \<and>
         length (fst (createRandomPattern rnd config k)) \<le> length_opt config + 3"
  using createRandomPattern_length_no_groups[OF assms] by simp

theorem random_pattern_length_bounds_witness:
  "16 \<le> length (fst (createRandomPattern late_repeat_source
                        (random_defaults\<lparr>groupProbability := 0\<rparr>) 0)) \<and>
   length (fst (createRandomPattern late_repeat_source
                  (random_defaults\<lparr>groupProbability := 0\<rparr>) 0)) \<le> 19"
  using random_pattern_length_bounds[of "random_defaults\<lparr>groupProbability := 0\<rparr>"
      late_repeat_source 0]
  by (simp add: random_defaults_def)

text \<open>
  The recursion-depth counter is balanced: every parser function that returns, returns
  the shared configuration exactly as it received it.
\<close>

theorem parser_leaves_config_unchanged:
  "(\<forall>out' c' k'. parsePatternString rnd pattern config k = Some (out', c', k')
      \<longrightarrow> c' = config) \<and>
   (\<forall>out' c' k'. forEach_token rnd tokens config k out = Some (out', c', k')
      \<longrightarrow> c' = config) \<and>
   (\<forall>r c' k'. handleTransformation rnd token config k = Some (r, c', k') \<longrightarrow> c' = config) \<and>
   (\<forall>r c' k'. handleGroupWithRepeat rnd token config k = Some (r, c', k') \<longrightarrow> c' = config)"
  by (intro conjI parser_restores_config)

theorem parser_leaves_config_unchanged_witness:
  "parsePatternString no_random ''[1 2]*2 scale2[3]'' defaults 0
     = Some ([Note 1, Note 2, Note 1, Note 2, Note 6], defaults, 0)"
proof -
  have "\<exists>c. parsePatternString no_random ''[1 2]*2 scale2[3]'' defaults 0
     = Some ([Note 1, Note 2, Note 1, Note 2, Note 6], c, 0)"
    by (simp add: parser_simps transformPattern_def paramMatch_def repeat_loop.simps
        double_succ_def)
  then show ?thesis
    using parser_leaves_config_unchanged
      [of no_random "''[1 2]*2 scale2[3]''" defaults 0 "[]" "[]" "[]"]
    by auto
qed

text \<open>
  The sequences that survive printing and parsing: rests and integers below \<open>2^53\<close> in
  magnitude.
\<close>

fun plain_step :: "step \<Rightarrow> bool" where
  "plain_step Rest = True"
| "plain_step (Note n) = (\<bar>n\<bar> < 2 ^ 53)"
| "plain_step NaN = False"

text \<open>The text of such a step: a dash, or decimal digits with an optional minus sign.\<close>

definition plain_word :: "string \<Rightarrow> bool" where
  "plain_word w = (w = ''-'' \<or> (\<exists>ds. ds \<noteq> [] \<and> list_all is_digit ds \<and> (w = ds \<or> w = CHR ''-'' # ds)))"

lemma is_digit_facts:
  assumes "is_digit c"
  shows "is_word c" "\<not> is_space c" "c \<noteq> CHR ''[''" "c \<noteq> CHR '',''" "c \<noteq> CHR '';''"
    "c \<noteq> CHR ''*''" "c \<noteq> CHR '']''" "c \<noteq> CHR ''-''"
  using assms by (auto simp: is_digit_def is_word_def is_space_def Let_def)

lemma dash_facts: "\<not> is_word CHR ''-''" "\<not> is_space CHR ''-''" "\<not> is_digit CHR ''-''"
  "\<not> is_word CHR '' ''" "is_space CHR '' ''" "\<not> is_digit CHR '' ''"
  by (simp_all add: is_word_def is_space_def is_digit_def is_lower_def is_upper_def)

definition word_char :: "char \<Rightarrow> bool" where
  "word_char c = (is_digit c \<or> c = CHR ''-'')"

lemma plain_word_chars: "plain_word w \<Longrightarrow> w \<noteq> [] \<and> list_all word_char w"
  by (auto simp: plain_word_def word_char_def list_all_iff)

lemma word_char_facts:
  assumes "word_char c"
  shows "\<not> is_space c" "c \<noteq> CHR ''[''" "c \<noteq> CHR '',''" "c \<noteq> CHR '';''" "c \<noteq> CHR ''*''"
    "c \<noteq> CHR '']''"
  using assms is_digit_facts[of c] dash_facts by (auto simp: word_char_def)

text \<open>What follows a word in the joined text: nothing, or one space and the next word.\<close>

definition word_follows :: "string \<Rightarrow> bool" where
  "word_follows rest = (rest = [] \<or> (\<exists>c r. rest = CHR '' '' # c # r \<and> word_char c))"

lemma takeWhile_append_stop:
  assumes "list_all P w" "rest = [] \<or> \<not> P (hd rest)"
  shows "takeWhile P (w @ rest) = w"
  using assms by (induction w) (auto simp: takeWhile_eq_Nil_iff neq_Nil_conv)

lemma alt1_plain:
  assumes "plain_word w" "word_follows rest"
  shows "alt1_len (w @ rest) = None"
proof (cases "hd w = CHR ''-''")
  case True
  with assms(1) obtain w' where "w = CHR ''-'' # w'"
    using plain_word_chars by (cases w) auto
  then show ?thesis by (simp add: alt1_len_def dash_facts)
next
  case False
  with assms(1) obtain ds where ds: "w = ds" "ds \<noteq> []" "list_all is_digit ds"
    by (auto simp: plain_word_def)
  have wd: "list_all is_word w" using ds by (auto simp: list_all_iff is_digit_facts)
  have stop: "rest = [] \<or> \<not> is_word (hd rest)"
    using assms(2) by (auto simp: word_follows_def dash_facts)
  have tw: "takeWhile is_word (w @ rest) = w" by (rule takeWhile_append_stop[OF wd stop])
  show ?thesis
  proof (cases "rest = []")
    case True
    show ?thesis unfolding alt1_len_def Let_def tw using True by simp
  next
    case False
    then obtain c r where r: "rest = CHR '' '' # c # r" "word_char c"
      using assms(2) by (auto simp: word_follows_def)
    have sp: "takeWhile is_space rest = '' ''"
      using r word_char_facts(1)[OF r(2)] by (simp add: dash_facts)
    have dr: "drop (length w + 1) (w @ rest) = c # r" using r by simp
    show ?thesis
      using tw ds sp dr word_char_facts(2)[OF r(2)]
      by (simp add: alt1_len_def Let_def)
  qed
qed

lemma match_len_plain:
  assumes "plain_word w" "word_follows rest"
  shows "match_len (w @ rest) = Some (length w)"
proof -
  from plain_word_chars[OF assms(1)] obtain a w' where w: "w = a # w'" "word_char a"
    "list_all word_char w"
    by (cases w) auto
  have a2: "alt2_len (w @ rest) = None" "alt3_len (w @ rest) = None"
    using w word_char_facts(2)[OF w(2)] by (simp_all add: alt2_len_def alt3_len_def)
  let ?P = "\<lambda>c. c \<noteq> CHR '','' \<and> c \<noteq> CHR '';'' \<and> \<not> is_space c"
  have p: "list_all ?P w"
    using w(3) word_char_facts by (auto simp: list_all_iff)
  have stop: "rest = [] \<or> \<not> ?P (hd rest)"
    using assms(2) by (auto simp: word_follows_def dash_facts)
  have "takeWhile ?P (w @ rest) = w" by (rule takeWhile_append_stop[OF p stop])
  then have a4: "alt4_len (w @ rest) = Some (length w)"
    using w(1) by (simp add: alt4_len_def Let_def)
  show ?thesis using alt1_plain[OF assms] a2 a4 by (simp add: match_len_def)
qed

lemma match_len_space: "match_len (CHR '' '' # s) = None"
  by (simp add: match_len_def alt1_len_def alt2_len_def alt3_len_def alt4_len_def dash_facts)

lemma join_space_follows:
  assumes "list_all plain_word (w' # ws)"
  shows "word_follows (CHR '' '' # join_space (w' # ws))"
proof -
  from assms have "plain_word w'" by simp
  from plain_word_chars[OF this] obtain a r where w': "w' = a # r" "word_char a"
    by (cases w') auto
  have "\<exists>r2. join_space (w' # ws) = a # r2"
    using w' by (cases ws) auto
  then show ?thesis using w'(2) by (auto simp: word_follows_def)
qed

lemma match_all_join_space:
  assumes "list_all plain_word ws"
  shows "match_all (join_space ws) = ws"
  using assms
proof (induction ws rule: join_space.induct)
  case 1
  show ?case by (simp add: match_all.simps)
next
  case (2 w)
  then have pw: "plain_word w" by simp
  have ne: "w \<noteq> []" using plain_word_chars[OF pw] by simp
  have "match_len (w @ []) = Some (length w)"
    by (rule match_len_plain[OF pw]) (simp add: word_follows_def)
  then show ?case using ne
    by (simp add: match_all.simps[of w] match_all.simps[of "[]"])
next
  case (3 w w' ws)
  then have pw: "plain_word w" and rest: "list_all plain_word (w' # ws)" by simp_all
  have ne: "w \<noteq> []" using plain_word_chars[OF pw] by simp
  let ?rest = "CHR '' '' # join_space (w' # ws)"
  have ml: "match_len (w @ ?rest) = Some (length w)"
    by (rule match_len_plain[OF pw join_space_follows[OF rest]])
  have "match_all (w @ ?rest) = w # match_all ?rest"
    using ml ne by (simp add: match_all.simps[of "w @ ?rest"])
  also have "match_all ?rest = match_all (join_space (w' # ws))"
    by (simp add: match_all.simps[of ?rest] match_len_space)
  also have "\<dots> = w' # ws" using 3 by simp
  finally show ?case by simp
qed


lemma js_trim_no_space:
  assumes "w \<noteq> []" "\<not> is_space (hd w)" "\<not> is_space (last w)"
  shows "js_trim w = w"
proof -
  have 1: "dropWhile is_space w = w" using assms by (simp add: dropWhile_eq_self_iff)
  have "dropWhile is_space (rev w) = rev w"
    using assms by (simp add: dropWhile_eq_self_iff hd_rev)
  then show ?thesis using 1 by (simp add: js_trim_def)
qed

lemma digits_numeric:
  assumes "ds \<noteq> []" "list_all is_digit ds"
  shows "is_numeric_string ds" "is_numeric_string (CHR ''-'' # ds)"
proof -
  have all: "\<forall>c\<in>set ds. is_digit c" using assms(2) by (simp add: list_all_iff)
  have hd: "is_digit (hd ds)" and lst: "is_digit (last ds)" using assms(1) all by auto
  have t1: "js_trim ds = ds"
    using assms(1) hd lst by (intro js_trim_no_space) (auto dest: is_digit_facts(2))
  have t2: "js_trim (CHR ''-'' # ds) = CHR ''-'' # ds"
    using assms(1) lst by (intro js_trim_no_space) (auto simp: dash_facts dest: is_digit_facts(2))
  have tw: "takeWhile is_digit ds = ds" using all by (rule takeWhile_all)
  have dw: "dropWhile is_digit ds = []" using all by simp
  have ok: "unsigned_decimal_ok ds"
    unfolding unsigned_decimal_ok_def Let_def tw dw using assms(1) by simp
  obtain a r where ds: "ds = a # r" using assms(1) by (cases ds) auto
  have "a \<noteq> CHR ''-''" "a \<noteq> CHR ''+''"
    using hd ds by (auto simp: is_digit_def Let_def)
  then have s1: "strip_sign ds = (False, ds)" using ds by simp
  show "is_numeric_string ds" using t1 s1 ok by (simp add: is_numeric_string_def Let_def)
  show "is_numeric_string (CHR ''-'' # ds)"
    unfolding is_numeric_string_def Let_def t2 using ok by simp
qed

lemma numToString_numeric:
  assumes "\<bar>n\<bar> < 10 ^ 21"
  shows "is_numeric_string (numToString n)"
proof -
  let ?m = "nat \<bar>n\<bar>"
  have m: "?m < 10 ^ 21" using assms by (simp add: nat_less_iff)
  have d: "list_all is_digit (nat_to_string ?m)"
    using nat_to_string_digits by (simp add: list_all_iff)
  show ?thesis
  proof (cases "n < 0")
    case True
    then have "numToString n = CHR ''-'' # nat_to_string ?m"
      using m by (simp add: numToString_def Let_def)
    then show ?thesis using digits_numeric(2)[OF nat_to_string_nonempty d] by simp
  next
    case False
    then have "numToString n = nat_to_string ?m"
      using m by (simp add: numToString_def Let_def)
    then show ?thesis using digits_numeric(1)[OF nat_to_string_nonempty d] by simp
  qed
qed

lemma numToString_plain:
  assumes "\<bar>n\<bar> < 10 ^ 21"
  shows "plain_word (numToString n)"
proof -
  let ?m = "nat \<bar>n\<bar>"
  have m: "?m < 10 ^ 21" using assms by (simp add: nat_less_iff)
  have d: "list_all is_digit (nat_to_string ?m)"
    using nat_to_string_digits by (simp add: list_all_iff)
  show ?thesis
    using m d nat_to_string_nonempty[of ?m]
    by (auto simp: plain_word_def numToString_def Let_def)
qed

lemma step_to_string_plain: "plain_step x \<Longrightarrow> plain_word (step_to_string x)"
proof (cases x)
  case Rest
  then show ?thesis by (simp add: plain_word_def)
next
  case (Note n)
  assume "plain_step x"
  with Note have "\<bar>n\<bar> < 10 ^ 21" by simp
  then show ?thesis using Note by (simp add: numToString_plain)
next
  case NaN
  assume "plain_step x"
  with NaN show ?thesis by simp
qed

lemma rest_token_facts:
  "\<not> is_numeric_string ''-''" "\<not> is_transform_token ''-''" "\<not> includes_str '']*'' ''-''"
  "\<not> startsWith ''-'' ''[''"
  by (simp_all add: num_defs is_transform_token_def startsWith_def endsWith_def dash_facts)

lemma forEach_token_plain:
  assumes "list_all plain_step s" "defaultRestValue config = Rest"
  shows "forEach_token rnd (map step_to_string s) config k out = Some (out @ s, config, k)"
  using assms
proof (induction s arbitrary: out)
  case Nil
  show ?case by simp
next
  case (Cons x s)
  then have IH: "\<And>out. forEach_token rnd (map step_to_string s) config k out
                         = Some (out @ s, config, k)"
    by simp
  show ?case
  proof (cases x)
    case Rest
    then show ?thesis using IH Cons.prems(2) rest_token_facts by simp
  next
    case (Note n)
    then have safe: "\<bar>n\<bar> < 2 ^ 53" using Cons.prems(1) by simp
    then have small: "\<bar>n\<bar> < 10 ^ 21" by simp
    show ?thesis
      using Note IH numToString_numeric[OF small] parseInt_numToString[OF safe]
      by (simp add: parse_number_def)
  next
    case NaN
    then show ?thesis using Cons.prems(1) by simp
  qed
qed

text \<open>
  Printing a sequence of rests and integers below \<open>2^53\<close> in absolute value with
  \<^verbatim>\<open>patternToString\<close> and parsing the text with the default options gives the sequence
  back, and draws no random number.
\<close>

theorem plain_round_trip:
  assumes "list_all plain_step s"
  shows "parsePattern rnd (patternToString s) defaults k = Some (s, k)"
proof (cases "s = []")
  case True
  then show ?thesis by (simp add: parsePattern_def patternToString_def)
next
  case False
  let ?ws = "map step_to_string s"
  have pw: "list_all plain_word ?ws"
    using assms by (simp add: list_all_iff step_to_string_plain)
  have tok: "match_all (join_space ?ws) = ?ws" by (rule match_all_join_space[OF pw])
  have ne: "join_space ?ws \<noteq> []"
  proof -
    obtain x r where s: "s = x # r" using False by (cases s) auto
    have "step_to_string x \<noteq> []"
      using plain_word_chars[OF step_to_string_plain, of x] assms s by simp
    then show ?thesis using s by (cases r) auto
  qed
  let ?c = "defaults\<lparr>currentDepth := 0\<rparr>\<lparr>currentDepth := currentDepth (defaults\<lparr>currentDepth := 0\<rparr>) + 1\<rparr>"
  have fe: "forEach_token rnd ?ws ?c k [] = Some ([] @ s, ?c, k)"
    by (rule forEach_token_plain[OF assms]) (simp add: defaults_def)
  show ?thesis
    using ne tok fe
    by (simp add: parsePattern_def patternToString_def defaults_def parsePatternString.simps)
qed

theorem plain_round_trip_witness:
  "list_all plain_step [Note 60, Rest, Note (- 3), Note 0] \<and>
   patternToString [Note 60, Rest, Note (- 3), Note 0] = ''60 - -3 0'' \<and>
   parsePattern (\<lambda>i. 0) ''60 - -3 0'' defaults 0
     = Some ([Note 60, Rest, Note (- 3), Note 0], 0)"
proof -
  have p: "list_all plain_step [Note 60, Rest, Note (- 3), Note 0]" by simp
  have "nat_to_string 60 = ''60''" "nat_to_string 3 = ''3''" "nat_to_string 0 = ''0''"
    by (simp_all add: nat_to_string.simps digit_char_def)
  then have s: "patternToString [Note 60, Rest, Note (- 3), Note 0] = ''60 - -3 0''"
    by (simp add: patternToString_def numToString_def)
  show ?thesis using plain_round_trip[OF p, of "\<lambda>i. 0" 0] p unfolding s by simp
qed


section \<open>The final rewrite of the parser\<close>

text \<open>
  \<^verbatim>\<open>src/unnamed/part_002\<close> is the rewrite marked as the final version. It shares
  \<^verbatim>\<open>transformPattern\<close>, \<^verbatim>\<open>normalizePattern\<close>, \<^verbatim>\<open>patternToString\<close> and
  \<^verbatim>\<open>createRandomPattern\<close> with \<^verbatim>\<open>parser2.js\<close> word for word and replaces the tokenizer by
  a scanner that matches brackets. A nested call receives a copy of the configuration,
  so the configuration is passed by value here.
\<close>

definition is_letter :: "char \<Rightarrow> bool" where
  "is_letter c = (is_lower c \<or> is_upper c)"

definition skip_space :: "string \<Rightarrow> nat \<Rightarrow> nat" where
  "skip_space pattern pos = pos + length (takeWhile is_space (drop pos pattern))"

text \<open>\<^verbatim>\<open>/^([a-zA-Z]\w*)\[/.exec(pattern.substring(0, currentPos + 1))\<close>, group 1.\<close>

definition transformMatch :: "string \<Rightarrow> string option" where
  "transformMatch prefix =
     (case prefix of
        [] \<Rightarrow> None
      | c # cs \<Rightarrow>
          if is_letter c \<and> take 1 (dropWhile is_word prefix) = ''[''
          then Some (takeWhile is_word prefix) else None)"

text \<open>
  The loop that looks for the matching bracket: the number of characters it reads after
  the opening bracket, or \<open>None\<close> when the end is reached with brackets open.
\<close>

fun bracket_scan :: "string \<Rightarrow> nat \<Rightarrow> nat option" where
  "bracket_scan [] bracketDepth = None"
| "bracket_scan (c # cs) bracketDepth =
     (if c = CHR ''['' then map_option Suc (bracket_scan cs (bracketDepth + 1))
      else if c = CHR '']'' then
        (if bracketDepth \<le> 1 then Some 1
         else map_option Suc (bracket_scan cs (bracketDepth - 1)))
      else map_option Suc (bracket_scan cs bracketDepth))"

definition digits_from :: "string \<Rightarrow> nat \<Rightarrow> nat" where
  "digits_from pattern pos = pos + length (takeWhile is_digit (drop pos pattern))"

definition char_at :: "string \<Rightarrow> nat \<Rightarrow> char option" where
  "char_at pattern pos = (if pos < length pattern then Some (pattern ! pos) else None)"

definition extractNextToken :: "string \<Rightarrow> nat \<Rightarrow> string option \<times> nat" where
  "extractNextToken pattern startPos =
     (let currentPos = skip_space pattern startPos
      in (case char_at pattern currentPos of
            None \<Rightarrow> (None, currentPos)
          | Some c \<Rightarrow>
              if c = CHR ''['' then
                (case bracket_scan (drop (currentPos + 1) pattern) 1 of
                   None \<Rightarrow> (None, length pattern)
                 | Some n \<Rightarrow>
                     let tokenEnd = currentPos + 1 + n;
                         start = (case transformMatch (take (currentPos + 1) pattern) of
                                    None \<Rightarrow> int currentPos
                                  | Some name \<Rightarrow> int currentPos - int (length name))
                     in if char_at pattern tokenEnd = Some CHR ''*''
                        then (let repeatEnd = digits_from pattern (tokenEnd + 1)
                              in (Some (substring pattern start (int repeatEnd)), repeatEnd))
                        else (Some (substring pattern start (int tokenEnd)), tokenEnd))
              else if is_digit c \<or> c = CHR ''-'' then
                (let tokenEnd = (if is_digit c then digits_from pattern (currentPos + 1)
                                 else currentPos + 1)
                 in if char_at pattern tokenEnd = Some CHR ''*''
                    then (let repeatEnd = digits_from pattern (tokenEnd + 1)
                          in (Some (substring pattern (int currentPos) (int repeatEnd)),
                              repeatEnd))
                    else (Some (substring pattern (int currentPos) (int tokenEnd)), tokenEnd))
              else (Some [c], currentPos + 1)))"

lemmas ext_defs = extractNextToken_def skip_space_def char_at_def transformMatch_def
  digits_from_def substring_def is_letter_def is_word_def is_space_def is_lower_def
  is_upper_def is_digit_def

text \<open>\<^verbatim>\<open>s.split(/\s+/)\<close>\<close>

function split_space :: "string \<Rightarrow> string list" where
  "split_space s =
     (let rest = dropWhile (\<lambda>c. \<not> is_space c) s
      in if rest = [] then [s]
         else takeWhile (\<lambda>c. \<not> is_space c) s # split_space (dropWhile is_space rest))"
  by pat_completeness auto
termination
proof (relation "measure length")
  show "wf (measure length)" by simp
next
  fix s :: string and rest
  assume r: "rest = dropWhile (\<lambda>c. \<not> is_space c) s" and ne: "rest \<noteq> []"
  obtain c cs where cs: "rest = c # cs" using ne by (cases rest) auto
  have "is_space c" using r cs by (metis (mono_tags, lifting) hd_dropWhile list.sel(1) ne)
  then have "length (dropWhile is_space rest) \<le> length cs"
    using cs by (simp add: length_dropWhile_le)
  moreover have "length rest \<le> length s" using r by (simp add: length_dropWhile_le)
  ultimately show "(dropWhile is_space rest, s) \<in> measure length" using cs by simp
qed

declare split_space.simps [simp del]

text \<open>
  Direct repetition as the final variant expands it: no test of the value text and a
  loop of pushes instead of \<^verbatim>\<open>Array(n)\<close>. Every round of that loop makes the array
  longer, so the loop ends; it is given by the array it builds when memory is no limit.
\<close>

definition direct_repetition_final :: "string \<Rightarrow> config \<Rightarrow> step list" where
  "direct_repetition_final token config =
     (case split_star token of
        (val, None) \<Rightarrow> []
      | (val, Some repeat) \<Rightarrow>
          (case parseInt repeat of
             None \<Rightarrow> []
           | Some repeatCount \<Rightarrow>
               if repeatCount \<le> 0 then []
               else if val = ''-'' then replicate (nat repeatCount) (defaultRestValue config)
               else if is_numeric_string val
                    then replicate (nat repeatCount) (parse_number val)
                    else []))"

text \<open>The loop over the parts of a pattern without brackets.\<close>

definition simple_part :: "config \<Rightarrow> string \<Rightarrow> step list" where
  "simple_part config part =
     (if CHR ''*'' \<in> set part then direct_repetition_final part config
      else if part = ''-'' then [defaultRestValue config]
      else if is_numeric_string part then [parse_number part]
      else [])"

text \<open>\<^verbatim>\<open>/^\[.*\]\*\d+$/.test(token)\<close>\<close>

definition is_group_repeat_token :: "string \<Rightarrow> bool" where
  "is_group_repeat_token token =
     (let ds = takeWhile is_digit (rev token);
          r = drop (length ds) (rev token)
      in ds \<noteq> [] \<and> take 2 r = ''*]'' \<and> 3 \<le> length r \<and> hd token = CHR ''['' \<and>
         list_all (\<lambda>c. \<not> is_line_terminator c) (tl (rev (drop 2 r))))"


text \<open>\<^verbatim>\<open>s.indexOf(c, from)\<close>\<close>

definition indexOf_from :: "char \<Rightarrow> string \<Rightarrow> int \<Rightarrow> int" where
  "indexOf_from c s from =
     (let n = nat (max 0 from)
      in if c \<in> set (drop n s)
         then int n + int (length (takeWhile (\<lambda>x. x \<noteq> c) (drop n s)))
         else - 1)"

lemma length_take_drop_le: "length (take n (drop m s)) \<le> length s"
  by (simp add: min.coboundedI1)

lemma length_substring_le: "length (substring s a b) \<le> length s"
  unfolding substring_def Let_def by (rule length_take_drop_le)

lemma substring_shorter:
  assumes "1 \<le> a" "a < int (length s)" "b < int (length s)"
  shows "length (substring s a b) < length s"
  using assms by (auto simp: substring_def Let_def min_def max_def)

lemma transform_token_index:
  assumes "is_transform_token token"
  shows "1 \<le> indexOf CHR ''['' token + 1" "indexOf CHR ''['' token + 1 < int (length token)"
proof -
  let ?w = "takeWhile is_word token" and ?r = "dropWhile is_word token"
  from assms have r: "2 \<le> length ?r" "hd ?r = CHR ''[''"
    by (simp_all add: is_transform_token_def Let_def)
  then obtain r' where r': "?r = CHR ''['' # r'" by (cases ?r) auto
  have tok: "token = ?w @ CHR ''['' # r'" using r' by (metis takeWhile_dropWhile_id)
  have nw: "\<not> is_word CHR ''[''"
    by (simp add: is_word_def is_lower_def is_upper_def is_digit_def)
  have "\<forall>x\<in>set ?w. x \<noteq> CHR ''[''" using nw by (metis set_takeWhileD)
  then have "takeWhile (\<lambda>x. x \<noteq> CHR ''['') (?w @ CHR ''['' # r') = ?w"
    by (simp add: takeWhile_append2)
  then have tw: "takeWhile (\<lambda>x. x \<noteq> CHR ''['') token = ?w" using tok by simp
  have mem: "CHR ''['' \<in> set token" using tok by (metis in_set_conv_decomp)
  have io: "indexOf CHR ''['' token = int (length ?w)"
    using tw mem by (simp add: indexOf_def)
  have len: "length token = length ?w + length ?r"
    by (metis length_append takeWhile_dropWhile_id)
  show "1 \<le> indexOf CHR ''['' token + 1" using io by simp
  show "indexOf CHR ''['' token + 1 < int (length token)" using io len r(1) by simp
qed

lemma group_repeat_token_length: "is_group_repeat_token token \<Longrightarrow> 1 < length token"
  by (auto simp: is_group_repeat_token_def Let_def)

lemma bracketed_token_length:
  "startsWith token ''['' \<and> endsWith token '']'' \<Longrightarrow> 1 < length token"
  by (cases token; cases "tl token") (auto simp: startsWith_def endsWith_def)

lemma skip_space_ge: "pos \<le> skip_space pattern pos"
  by (simp add: skip_space_def)

lemma bracket_scan_pos: "bracket_scan cs d = Some n \<Longrightarrow> 0 < n"
  by (induction cs d arbitrary: n rule: bracket_scan.induct) (auto split: if_splits)

lemma extractNextToken_advances:
  assumes "skip_space pattern pos < length pattern"
    and "extractNextToken pattern (skip_space pattern pos) = (tok, newPos)"
  shows "skip_space pattern pos < newPos"
proof -
  let ?p = "skip_space pattern pos"
  have "drop ?p pattern = dropWhile is_space (drop pos pattern)"
    unfolding skip_space_def
    by (metis add.commute drop_drop dropWhile_eq_drop)
  then have "takeWhile is_space (drop ?p pattern) = []"
    by (metis (full_types) hd_dropWhile takeWhile_eq_Nil_iff )
  then have idem: "skip_space pattern ?p = ?p"
    by (simp add: skip_space_def)
  show ?thesis
    using assms idem
    by (auto simp: extractNextToken_def char_at_def Let_def digits_from_def
        split: option.splits if_splits dest: bracket_scan_pos)
qed

lemma extractNextToken_token_length:
  "(Some t, y) = extractNextToken pattern p \<Longrightarrow> length t \<le> length pattern"
  by (auto simp: extractNextToken_def Let_def char_at_def length_substring_le
      split: option.splits if_splits)

lemma loop_measure_decreases:
  assumes "\<not> length pattern \<le> skip_space pattern cp"
    and "(tok, y) = extractNextToken pattern (skip_space pattern cp)"
  shows "length pattern - y < length pattern - cp"
proof -
  have "skip_space pattern cp < y"
    using extractNextToken_advances[of pattern cp tok y] assms by simp
  moreover have "cp \<le> skip_space pattern cp" by (rule skip_space_ge)
  ultimately show ?thesis using assms(1) by linarith
qed

lemma content_transform_shorter:
  assumes "(Some t, y) = extractNextToken pattern p" "is_transform_token t"
  shows "length (substring t (indexOf CHR ''['' t + 1) (lastIndexOf CHR '']'' t)) < length pattern"
proof -
  have "length (substring t (indexOf CHR ''['' t + 1) (lastIndexOf CHR '']'' t)) < length t"
    using transform_token_index[OF assms(2)] lastIndexOf_less[of "CHR '']''" t]
    by (intro substring_shorter) simp_all
  then show ?thesis using extractNextToken_token_length[OF assms(1)] by simp
qed

lemma content_group_repeat_shorter:
  assumes "(Some t, y) = extractNextToken pattern p" "is_group_repeat_token t"
  shows "length (substring t 1 (lastIndexOf CHR '']'' t)) < length pattern"
proof -
  have "length (substring t 1 (lastIndexOf CHR '']'' t)) < length t"
    using group_repeat_token_length[OF assms(2)] lastIndexOf_less[of "CHR '']''" t]
    by (intro substring_shorter) simp_all
  then show ?thesis using extractNextToken_token_length[OF assms(1)] by simp
qed

lemma content_group_shorter:
  assumes "(Some t, y) = extractNextToken pattern p"
    "startsWith t ''['' \<and> endsWith t '']''"
  shows "length (substring t 1 (int (length t) - 1)) < length pattern"
proof -
  have "length (substring t 1 (int (length t) - 1)) < length t"
    using bracketed_token_length[OF assms(2)]
    by (intro substring_shorter) simp_all
  then show ?thesis using extractNextToken_token_length[OF assms(1)] by simp
qed

text \<open>
  \<^verbatim>\<open>parsePatternString\<close> and the \<^verbatim>\<open>while\<close> loop of \<^verbatim>\<open>processComplexPattern\<close> of the
  final rewrite; \<^verbatim>\<open>currentPos\<close> and \<^verbatim>\<open>result\<close> are the loop's variables.
\<close>

function parsePatternString_final ::
    "(nat \<Rightarrow> real) \<Rightarrow> string \<Rightarrow> config \<Rightarrow> nat \<Rightarrow> (step list \<times> nat) option"
  and processComplexPattern ::
    "(nat \<Rightarrow> real) \<Rightarrow> string \<Rightarrow> config \<Rightarrow> nat \<Rightarrow> step list \<Rightarrow> nat
       \<Rightarrow> (step list \<times> nat) option"
where
  "parsePatternString_final rnd pattern config k =
     (if currentDepth config > maxRecursionDepth config then Some ([], k)
      else (case (if CHR ''['' \<notin> set pattern
                  then Some (concat (map (simple_part
                                            (config\<lparr>currentDepth := currentDepth config + 1\<rparr>))
                                       (split_space (js_trim pattern))), k)
                  else processComplexPattern rnd pattern
                         (config\<lparr>currentDepth := currentDepth config + 1\<rparr>) 0 [] k) of
              None \<Rightarrow> None
            | Some (outputPattern, k') \<Rightarrow>
                Some (if normalizePitches config then map normalize_step outputPattern
                      else outputPattern, k')))"
| "processComplexPattern rnd pattern config currentPos result k =
     (if skip_space pattern currentPos \<ge> length pattern then Some (result, k)
      else (case extractNextToken pattern (skip_space pattern currentPos) of
              (None, newPos) \<Rightarrow> processComplexPattern rnd pattern config newPos result k
            | (Some token, newPos) \<Rightarrow>
                if token = ''-'' then
                  processComplexPattern rnd pattern config newPos
                    (result @ [defaultRestValue config]) k
                else if is_numeric_string token then
                  processComplexPattern rnd pattern config newPos
                    (result @ [parse_number token]) k
                else if CHR ''*'' \<in> set token \<and> \<not> startsWith token ''['' then
                  processComplexPattern rnd pattern config newPos
                    (result @ direct_repetition_final token config) k
                else if is_transform_token token then
                  (case parsePatternString_final rnd
                          (substring token (indexOf CHR ''['' token + 1)
                             (lastIndexOf CHR '']'' token)) config k of
                     None \<Rightarrow> None
                   | Some (contentPattern, k') \<Rightarrow>
                       (case transformPattern rnd
                               (substring token 0 (indexOf CHR ''['' token)) contentPattern k' of
                          Inl e \<Rightarrow> processComplexPattern rnd pattern config newPos result k'
                        | Inr (transformedPattern, k'') \<Rightarrow>
                            processComplexPattern rnd pattern config newPos
                              (result @ transformedPattern) k''))
                else if is_group_repeat_token token then
                  (case parseInt (substring token
                                    (indexOf_from CHR ''*'' token (lastIndexOf CHR '']'' token) + 1)
                                    (int (length token))) of
                     None \<Rightarrow> processComplexPattern rnd pattern config newPos result k
                   | Some repeatCount \<Rightarrow>
                       if repeatCount \<le> 0
                       then processComplexPattern rnd pattern config newPos result k
                       else (case parsePatternString_final rnd
                                    (substring token 1 (lastIndexOf CHR '']'' token)) config k of
                               None \<Rightarrow> None
                             | Some (groupPattern, k') \<Rightarrow>
                                 (case repeat_loop True 0 repeatCount result groupPattern of
                                    None \<Rightarrow> None
                                  | Some (raised, result') \<Rightarrow>
                                      processComplexPattern rnd pattern config newPos
                                        result' k')))
                else if startsWith token ''['' \<and> endsWith token '']'' then
                  (case parsePatternString_final rnd
                          (substring token 1 (int (length token) - 1)) config k of
                     None \<Rightarrow> None
                   | Some (groupPattern, k') \<Rightarrow>
                       processComplexPattern rnd pattern config newPos (result @ groupPattern) k')
                else processComplexPattern rnd pattern config newPos result k))"
  by pat_completeness auto
termination
  apply (relation "inv_image (less_than <*lex*> less_than)
      (\<lambda>x. case x of
         Inl (rnd, pattern, config, k) \<Rightarrow> (length pattern, length pattern + 1)
       | Inr (rnd, pattern, config, currentPos, res, k) \<Rightarrow>
           (length pattern, length pattern - currentPos))")
  apply (auto dest: loop_measure_decreases content_transform_shorter
      content_group_repeat_shorter content_group_shorter)
  done

declare parsePatternString_final.simps [simp del] processComplexPattern.simps [simp del]

definition parsePattern_final ::
  "(nat \<Rightarrow> real) \<Rightarrow> string \<Rightarrow> config \<Rightarrow> nat \<Rightarrow> (step list \<times> nat) option" where
  "parsePattern_final rnd pattern options k =
     (if pattern = [] then Some ([], k)
      else parsePatternString_final rnd pattern (options\<lparr>currentDepth := 0\<rparr>) k)"

lemmas final_simps = parsePattern_final_def parsePatternString_final.simps
  processComplexPattern.simps ext_defs simple_part_def direct_repetition_final_def
  split_space.simps js_trim_def is_group_repeat_token_def indexOf_from_def
  is_transform_token_def startsWith_def endsWith_def split_star_def indexOf_def
  lastIndexOf_def parse_number_def parseInt_def string_class_defs defaults_def num_defs
  is_line_terminator_def

text \<open>
  The depth bound of the final rewrite: past it every string compiles to the empty
  sequence.
\<close>

theorem final_depth_guard:
  assumes "currentDepth config > maxRecursionDepth config"
  shows "parsePatternString_final rnd pattern config k = Some ([], k)"
  using assms by (simp add: parsePatternString_final.simps)

theorem final_depth_guard_witness:
  "parsePatternString_final no_random ''[1 2]'' (defaults\<lparr>currentDepth := 11\<rparr>) 0
     = Some ([], 0)"
  by (rule final_depth_guard) (simp add: defaults_def)

text \<open>
  Brackets nest in the final rewrite: ten levels still reach the note, and the eleventh
  level is cut off at the default bound while the rest of the input compiles.
\<close>

theorem final_deep_nesting_truncated:
  "parsePattern_final rnd ''[[[[[[[[[[1]]]]]]]]]]'' defaults k = Some ([Note 1], k) \<and>
   parsePattern_final rnd ''[[[[[[[[[[[1]]]]]]]]]]] 2'' defaults k = Some ([Note 2], k)"
  by (simp add: final_simps)

text \<open>The round trip of claim C3 fails in the final rewrite at the same input.\<close>

theorem final_nan_round_trip_fails:
  "parsePattern_final no_random ''Infinity'' defaults 0 = Some ([NaN], 0) \<and>
   patternToString [NaN] = ''NaN'' \<and>
   parsePattern_final no_random ''NaN'' defaults 0 = Some ([], 0)"
  by (simp add: final_simps patternToString_def)

text \<open>The group repetition of claim C8 in the final rewrite.\<close>

theorem final_group_repeat_example:
  "parsePattern_final rnd ''[1 2]*3'' defaults k
     = Some ([Note 1, Note 2, Note 1, Note 2, Note 1, Note 2], k)"
  by (simp add: final_simps repeat_loop.simps double_succ_def)

text \<open>
  The example of claim C7 in the final rewrite: the scanner reads \<^verbatim>\<open>s c a l e\<close> as five
  unknown tokens and the \<^verbatim>\<open>2\<close> as a note before it reaches the bracket and looks back for
  the name, so a 2 precedes the scaled notes.
\<close>

theorem final_scale2_example:
  "parsePattern_final rnd ''scale2[1 2 3]'' defaults k
     = Some ([Note 2, Note 2, Note 4, Note 6], k)"
  by (simp add: final_simps transformPattern_def paramMatch_def)

text \<open>
  The final rewrite has the loop of claim C5 as well: the group \<^verbatim>\<open>[x]\<close> compiles to the
  empty sequence, and with the count \<open>10^17\<close> the loop that pushes its copies never ends.
\<close>

theorem final_huge_count_never_returns:
  "parsePatternString_final rnd ''x'' (defaults\<lparr>currentDepth := 1\<rparr>) k = Some ([], k) \<and>
   parsePattern_final rnd ''[x]*99999999999999999'' defaults k = None"
proof -
  have inner: "parsePatternString_final rnd ''x'' (defaults\<lparr>currentDepth := 1\<rparr>) k = Some ([], k)"
    by (simp add: final_simps)
  have loop: "repeat_loop True 0 (10 ^ 17) [] [] = None"
    by (rule repeat_loop_diverges) simp_all
  have count: "parseInt ''99999999999999999'' = Some (10 ^ 17)"
    by (simp add: parseInt_def string_class_defs bit_length.simps)
  have tok: "extractNextToken ''[x]*99999999999999999'' 0 = (Some ''[x]*99999999999999999'', 21)"
    by (simp add: ext_defs)
  have sk: "skip_space ''[x]*99999999999999999'' 0 = 0"
    by (simp add: skip_space_def is_space_def)
  have cls: "''[x]*99999999999999999'' \<noteq> ''-''"
    "\<not> is_numeric_string ''[x]*99999999999999999''"
    "startsWith ''[x]*99999999999999999'' ''[''"
    "\<not> is_transform_token ''[x]*99999999999999999''"
    "is_group_repeat_token ''[x]*99999999999999999''"
    by (simp_all add: num_defs startsWith_def is_transform_token_def is_group_repeat_token_def
        is_word_def is_lower_def is_upper_def is_line_terminator_def)
  have parts: "substring ''[x]*99999999999999999''
                 (indexOf_from CHR ''*'' ''[x]*99999999999999999''
                    (lastIndexOf CHR '']'' ''[x]*99999999999999999'') + 1)
                 (int (length ''[x]*99999999999999999'')) = ''99999999999999999''"
    "substring ''[x]*99999999999999999'' 1 (lastIndexOf CHR '']'' ''[x]*99999999999999999'')
       = ''x''"
    by (simp_all add: substring_def indexOf_from_def lastIndexOf_def)
  have "processComplexPattern rnd ''[x]*99999999999999999'' (defaults\<lparr>currentDepth := 1\<rparr>)
          0 [] k = None"
    using tok sk cls parts count inner loop
    by (subst processComplexPattern.simps) simp
  then show ?thesis using inner
    by (simp add: parsePattern_final_def parsePatternString_final.simps defaults_def)
qed


section \<open>The fixed rewrite of the parser\<close>

text \<open>
  \<^verbatim>\<open>src/unnamed/part_001\<close> is the rewrite marked as the fixed version. Its tokenizer
  \<^verbatim>\<open>tokenizeWithBrackets\<close> scans the pattern character by character and counts
  brackets; its \<^verbatim>\<open>parsePatternString\<close> hands a copy of the configuration to every nested
  call. \<^verbatim>\<open>tokenize_loop\<close> is the \<^verbatim>\<open>for\<close> loop, with the loop's variables as arguments.
\<close>

definition is_word_string :: "string \<Rightarrow> bool" where
  "is_word_string s = (s \<noteq> [] \<and> list_all is_word s)"

definition next_is_digit :: "string \<Rightarrow> nat \<Rightarrow> bool" where
  "next_is_digit pattern pos = (case char_at pattern pos of None \<Rightarrow> False | Some d \<Rightarrow> is_digit d)"

function tokenize_loop ::
  "string \<Rightarrow> nat \<Rightarrow> string list \<Rightarrow> string \<Rightarrow> nat \<Rightarrow> bool \<Rightarrow> string list \<times> string \<times> nat" where
  "tokenize_loop pattern i tokens currentToken bracketDepth inTransform =
     (if i \<ge> length pattern then (tokens, currentToken, bracketDepth)
      else if pattern ! i = CHR ''['' then
        tokenize_loop pattern (i + 1) tokens (currentToken @ ''['') (bracketDepth + 1)
          (if bracketDepth + 1 = 1 \<and> currentToken \<noteq> [] \<and> is_word_string (js_trim currentToken)
           then True else inTransform)
      else if pattern ! i = CHR '']'' then
        (if bracketDepth > 0 then
           (if bracketDepth - 1 = 0 then
              (if char_at pattern (i + 1) = Some CHR ''*''
               then tokenize_loop pattern (i + 1) tokens (currentToken @ '']'')
                      (bracketDepth - 1) inTransform
               else tokenize_loop pattern (i + 1) (tokens @ [js_trim (currentToken @ '']'')]) []
                      (bracketDepth - 1) False)
            else tokenize_loop pattern (i + 1) tokens (currentToken @ '']'')
                   (bracketDepth - 1) inTransform)
         else tokenize_loop pattern (i + 1) tokens currentToken bracketDepth inTransform)
      else if pattern ! i = CHR ''*'' then
        (if bracketDepth = 0 \<and> next_is_digit pattern (i + 1) then
           tokenize_loop pattern (digits_from pattern (i + 1))
             (tokens @ [js_trim (currentToken @ ''*'' @
                          takeWhile is_digit (drop (i + 1) pattern))])
             [] bracketDepth inTransform
         else tokenize_loop pattern (i + 1) tokens (currentToken @ ''*'') bracketDepth
                inTransform)
      else if pattern ! i = CHR '' '' \<or> pattern ! i = CHR 0x09 \<or> pattern ! i = CHR 0x0A then
        (if bracketDepth > 0 \<or> inTransform then
           tokenize_loop pattern (i + 1) tokens (currentToken @ [pattern ! i]) bracketDepth
             inTransform
         else if currentToken \<noteq> [] then
           tokenize_loop pattern (i + 1) (tokens @ [js_trim currentToken]) [] bracketDepth
             inTransform
         else tokenize_loop pattern (i + 1) tokens currentToken bracketDepth inTransform)
      else tokenize_loop pattern (i + 1) tokens (currentToken @ [pattern ! i]) bracketDepth
             inTransform)"
  by pat_completeness auto
termination
  by (relation "measure (\<lambda>(pattern, i, tokens, currentToken, bracketDepth, inTransform).
                  length pattern - i)")
     (auto simp: digits_from_def)

declare tokenize_loop.simps [simp del]

definition tokenizeWithBrackets :: "string \<Rightarrow> string list" where
  "tokenizeWithBrackets pattern =
     (case tokenize_loop pattern 0 [] [] 0 False of
        (tokens, currentToken, bracketDepth) \<Rightarrow>
          filter (\<lambda>t. js_trim t \<noteq> [])
            (if currentToken \<noteq> [] then tokens @ [js_trim currentToken] else tokens))"

lemmas tokw_defs = tokenizeWithBrackets_def tokenize_loop.simps char_at_def next_is_digit_def
  digits_from_def is_word_string_def js_trim_def is_word_def is_space_def is_lower_def
  is_upper_def is_digit_def

lemma digits_from_le: "pos \<le> length pattern \<Longrightarrow> digits_from pattern pos \<le> length pattern"
proof -
  have "length (takeWhile is_digit (drop pos pattern)) \<le> length (drop pos pattern)"
    by (rule length_takeWhile_le)
  then show "pos \<le> length pattern \<Longrightarrow> digits_from pattern pos \<le> length pattern"
    by (simp add: digits_from_def)
qed

lemma tokenize_loop_lengths:
  assumes "sum_list (map length tokens) + length currentToken \<le> i" "i \<le> length pattern"
  shows "sum_list (map length (fst (tokenize_loop pattern i tokens currentToken d t)))
           + length (fst (snd (tokenize_loop pattern i tokens currentToken d t)))
         \<le> length pattern"
  using assms
proof (induction pattern i tokens currentToken d t rule: tokenize_loop.induct)
  case (1 pattern i tokens currentToken bracketDepth inTransform)
  note unf = tokenize_loop.simps[of pattern i tokens currentToken bracketDepth inTransform]
  note inv = "1.prems"(1)
  show ?case
  proof (cases "i \<ge> length pattern")
    case True
    then show ?thesis using "1.prems" unfolding unf by simp
  next
    case lt: False
    then have i1: "i + 1 \<le> length pattern" by simp
    have tr: "length (js_trim x) \<le> length x" for x by (rule length_js_trim)
    show ?thesis
    proof (cases "pattern ! i = CHR ''[''")
      case True
      have "sum_list (map length tokens) + length (currentToken @ ''['') \<le> i + 1"
        using inv by simp
      from "1.IH"(1)[OF lt True this i1] show ?thesis unfolding unf using lt True by simp
    next
      case n1: False
      show ?thesis
      proof (cases "pattern ! i = CHR '']''")
        case True
        show ?thesis
        proof (cases "bracketDepth > 0")
          case d: True
          show ?thesis
          proof (cases "bracketDepth - 1 = 0")
            case z: True
            show ?thesis
            proof (cases "char_at pattern (i + 1) = Some CHR ''*''")
              case s: True
              have "sum_list (map length tokens) + length (currentToken @ '']'') \<le> i + 1"
                using inv by simp
              from "1.IH"(2)[OF lt n1 True d z s this i1] show ?thesis
                unfolding unf using lt n1 True d z s by simp
            next
              case s: False
              have "sum_list (map length (tokens @ [js_trim (currentToken @ '']'')]))
                      + length ([]::string) \<le> i + 1"
                using inv tr[of "currentToken @ '']''"] by simp
              from "1.IH"(3)[OF lt n1 True d z s this i1] show ?thesis
                unfolding unf using lt n1 True d z s by simp
            qed
          next
            case z: False
            have "sum_list (map length tokens) + length (currentToken @ '']'') \<le> i + 1"
              using inv by simp
            from "1.IH"(4)[OF lt n1 True d z this i1] show ?thesis
              unfolding unf using lt n1 True d z by simp
          qed
        next
          case d: False
          have "sum_list (map length tokens) + length currentToken \<le> i + 1"
            using inv by simp
          from "1.IH"(5)[OF lt n1 True d this i1] show ?thesis
            unfolding unf using lt n1 True d by simp
        qed
      next
        case n2: False
        show ?thesis
        proof (cases "pattern ! i = CHR ''*''")
          case True
          show ?thesis
          proof (cases "bracketDepth = 0 \<and> next_is_digit pattern (i + 1)")
            case c: True
            let ?ds = "takeWhile is_digit (drop (i + 1) pattern)"
            have j: "digits_from pattern (i + 1) = i + 1 + length ?ds"
              by (simp add: digits_from_def)
            have "sum_list (map length (tokens @ [js_trim (currentToken @ ''*'' @ ?ds)]))
                    + length ([]::string) \<le> digits_from pattern (i + 1)"
              using inv tr[of "currentToken @ ''*'' @ ?ds"] j by simp
            from "1.IH"(6)[OF lt n1 n2 True c this digits_from_le[OF i1]] show ?thesis
              unfolding unf using lt n1 n2 True c by simp
          next
            case c: False
            have "sum_list (map length tokens) + length (currentToken @ ''*'') \<le> i + 1"
              using inv by simp
            from "1.IH"(7)[OF lt n1 n2 True c this i1] show ?thesis
              unfolding unf using lt n1 n2 True c by auto
          qed
        next
          case n3: False
          show ?thesis
          proof (cases "pattern ! i = CHR '' '' \<or> pattern ! i = CHR 0x09 \<or> pattern ! i = CHR 0x0A")
            case w: True
            show ?thesis
            proof (cases "bracketDepth > 0 \<or> inTransform")
              case c: True
              have "sum_list (map length tokens) + length (currentToken @ [pattern ! i]) \<le> i + 1"
                using inv by simp
              from "1.IH"(8)[OF lt n1 n2 n3 w c this i1] show ?thesis
                unfolding unf using lt n1 n2 n3 by (simp add: w c)
            next
              case c: False
              show ?thesis
              proof (cases "currentToken \<noteq> []")
                case e: True
                have "sum_list (map length (tokens @ [js_trim currentToken]))
                        + length ([]::string) \<le> i + 1"
                  using inv tr[of currentToken] by simp
                from "1.IH"(9)[OF lt n1 n2 n3 w c e this i1] show ?thesis
                  unfolding unf using lt n1 n2 n3 e by (simp add: w c)
              next
                case e: False
                have "sum_list (map length tokens) + length currentToken \<le> i + 1"
                  using inv by simp
                from "1.IH"(10)[OF lt n1 n2 n3 w c e this i1] show ?thesis
                  unfolding unf using lt n1 n2 n3 e by (simp add: w c)
              qed
            qed
          next
            case w: False
            have "sum_list (map length tokens) + length (currentToken @ [pattern ! i]) \<le> i + 1"
              using inv by simp
            from "1.IH"(11)[OF lt n1 n2 n3 w this i1] show ?thesis
              unfolding unf using lt n1 n2 n3 by (simp add: w)
          qed
        qed
      qed
    qed
  qed
qed

lemma sum_length_filter_le: "sum_list (map length (filter P ts)) \<le> sum_list (map length ts)"
  by (induction ts) auto

lemma sum_length_tokenizeWithBrackets:
  "sum_list (map length (tokenizeWithBrackets pattern)) \<le> length pattern"
proof -
  obtain ts cur d where r: "tokenize_loop pattern 0 [] [] 0 False = (ts, cur, d)"
    by (metis prod.exhaust)
  have "sum_list (map length ts) + length cur \<le> length pattern"
    using tokenize_loop_lengths[of "[]" "[]" 0 pattern 0 False] r by simp
  moreover have "length (js_trim cur) \<le> length cur" by (rule length_js_trim)
  ultimately have "sum_list (map length (if cur \<noteq> [] then ts @ [js_trim cur] else ts))
                     \<le> length pattern"
    by simp
  then show ?thesis
    using sum_length_filter_le[of "\<lambda>t. js_trim t \<noteq> []" "if cur \<noteq> [] then ts @ [js_trim cur] else ts"] r
    by (simp add: tokenizeWithBrackets_def)
qed

lemma length_tokenizeWithBrackets: "length (tokenizeWithBrackets pattern) \<le> length pattern"
proof -
  have "\<forall>t\<in>set (tokenizeWithBrackets pattern). t \<noteq> []"
    by (auto simp: tokenizeWithBrackets_def js_trim_def split: prod.splits)
  from length_le_sum_length[OF this] sum_length_tokenizeWithBrackets[of pattern]
  show ?thesis by simp
qed

text \<open>\<^verbatim>\<open>/^\[.*\]$/.test(token)\<close> and \<^verbatim>\<open>/^.+\*\d+$/.test(token)\<close>\<close>

definition is_bracket_token :: "string \<Rightarrow> bool" where
  "is_bracket_token token =
     (2 \<le> length token \<and> hd token = CHR ''['' \<and> last token = CHR '']'' \<and>
      list_all (\<lambda>c. \<not> is_line_terminator c) (butlast (tl token)))"

definition is_direct_repeat_token :: "string \<Rightarrow> bool" where
  "is_direct_repeat_token token =
     (let ds = takeWhile is_digit (rev token);
          r = drop (length ds) (rev token)
      in ds \<noteq> [] \<and> 2 \<le> length r \<and> hd r = CHR ''*'' \<and>
         list_all (\<lambda>c. \<not> is_line_terminator c) (tl r))"

lemma group_repeat_content_shorter:
  assumes "is_group_repeat_token token" "(grp, rep) = split_star token"
  shows "length (js_trim (slice_1_m1 grp)) < length token"
proof -
  from assms(1) have t: "1 < length token" "hd token = CHR ''[''"
    by (auto simp: is_group_repeat_token_def Let_def)
  then obtain cs where tok: "token = CHR ''['' # cs" by (cases token) auto
  have grp: "grp = takeWhile (\<lambda>c. c \<noteq> CHR ''*'') token"
    using assms(2) by (simp add: split_star_def Let_def)
  then have "grp \<noteq> []" using tok by simp
  from length_slice_trim[OF this] have "length (js_trim (slice_1_m1 grp)) < length grp" .
  also have "length grp \<le> length token" using grp by (simp add: length_takeWhile_le)
  finally show ?thesis .
qed

lemma transform_content_shorter:
  assumes "is_transform_token token"
  shows "length (substring token (indexOf CHR ''['' token + 1) (lastIndexOf CHR '']'' token))
           < length token"
  using transform_token_index[OF assms] lastIndexOf_less[of "CHR '']''" token]
  by (intro substring_shorter) simp_all

lemma bracket_content_shorter:
  "is_bracket_token token \<Longrightarrow> length (js_trim (slice_1_m1 token)) < length token"
  by (rule length_slice_trim) (auto simp: is_bracket_token_def)

text \<open>\<^verbatim>\<open>parsePatternString\<close> of the fixed rewrite and its loop over the tokens.\<close>

function parsePatternString_fixed ::
    "(nat \<Rightarrow> real) \<Rightarrow> string \<Rightarrow> config \<Rightarrow> nat \<Rightarrow> (step list \<times> nat) option"
  and forEach_token_fixed ::
    "(nat \<Rightarrow> real) \<Rightarrow> string list \<Rightarrow> config \<Rightarrow> nat \<Rightarrow> step list
       \<Rightarrow> (step list \<times> nat) option"
where
  "parsePatternString_fixed rnd pattern config k =
     (if currentDepth config > maxRecursionDepth config then Some ([], k)
      else (case forEach_token_fixed rnd (tokenizeWithBrackets pattern)
                   (config\<lparr>currentDepth := currentDepth config + 1\<rparr>) k [] of
              None \<Rightarrow> None
            | Some (outputPattern, k') \<Rightarrow>
                Some (if normalizePitches config then map normalize_step outputPattern
                      else outputPattern, k')))"
| "forEach_token_fixed rnd [] config k outputPattern = Some (outputPattern, k)"
| "forEach_token_fixed rnd (token # tokens) config k outputPattern =
     (if is_group_repeat_token token then
        (case split_star token of
           (grp, rep) \<Rightarrow>
             (case Option.bind rep parseInt of
                None \<Rightarrow> forEach_token_fixed rnd tokens config k outputPattern
              | Some repeatCount \<Rightarrow>
                  if repeatCount \<le> 0
                  then forEach_token_fixed rnd tokens config k outputPattern
                  else (case parsePatternString_fixed rnd (js_trim (slice_1_m1 grp)) config k of
                          None \<Rightarrow> None
                        | Some (groupPattern, k') \<Rightarrow>
                            (case repeat_loop False 0 repeatCount outputPattern groupPattern of
                               None \<Rightarrow> None
                             | Some (raised, outputPattern') \<Rightarrow>
                                 forEach_token_fixed rnd tokens config k' outputPattern'))))
      else if is_transform_token token then
        (case parsePatternString_fixed rnd
                (substring token (indexOf CHR ''['' token + 1) (lastIndexOf CHR '']'' token))
                config k of
           None \<Rightarrow> None
         | Some (contentPattern, k') \<Rightarrow>
             (case transformPattern rnd (substring token 0 (indexOf CHR ''['' token))
                     contentPattern k' of
                Inl e \<Rightarrow> forEach_token_fixed rnd tokens config k' outputPattern
              | Inr (transformedPattern, k'') \<Rightarrow>
                  forEach_token_fixed rnd tokens config k'' (outputPattern @ transformedPattern)))
      else if is_bracket_token token then
        (case parsePatternString_fixed rnd (js_trim (slice_1_m1 token)) config k of
           None \<Rightarrow> None
         | Some (groupPattern, k') \<Rightarrow>
             forEach_token_fixed rnd tokens config k' (outputPattern @ groupPattern))
      else if is_direct_repeat_token token then
        forEach_token_fixed rnd tokens config k
          (outputPattern @ direct_repetition_final token config)
      else if token = ''-'' then
        forEach_token_fixed rnd tokens config k (outputPattern @ [defaultRestValue config])
      else if is_numeric_string token then
        forEach_token_fixed rnd tokens config k (outputPattern @ [parse_number token])
      else forEach_token_fixed rnd tokens config k outputPattern)"
  by pat_completeness auto
termination
  apply (relation "inv_image (less_than <*lex*> less_than)
      (\<lambda>x. case x of
         Inl (rnd, pattern, config, k) \<Rightarrow> (length pattern, length pattern + 2)
       | Inr (rnd, tokens, config, k, out) \<Rightarrow> (sum_list (map length tokens), length tokens + 1))")
  using length_tokenizeWithBrackets
  apply (auto simp: le_imp_less_Suc
      intro: le_neq_trans[OF sum_length_tokenizeWithBrackets]
      dest: group_repeat_content_shorter transform_content_shorter bracket_content_shorter)
  done

declare parsePatternString_fixed.simps [simp del]

definition parsePattern_fixed ::
  "(nat \<Rightarrow> real) \<Rightarrow> string \<Rightarrow> config \<Rightarrow> nat \<Rightarrow> (step list \<times> nat) option" where
  "parsePattern_fixed rnd pattern options k =
     (if pattern = [] then Some ([], k)
      else parsePatternString_fixed rnd pattern (options\<lparr>currentDepth := 0\<rparr>) k)"

lemmas fixed_simps = parsePattern_fixed_def parsePatternString_fixed.simps tokw_defs
  is_group_repeat_token_def is_bracket_token_def is_direct_repeat_token_def
  is_transform_token_def direct_repetition_final_def slice_1_m1_def split_star_def
  indexOf_def lastIndexOf_def substring_def parse_number_def parseInt_def string_class_defs
  defaults_def num_defs is_line_terminator_def

text \<open>
  The examples of claims C8 and C7 in the fixed rewrite: three copies of the group, and
  the scaled notes.
\<close>

theorem fixed_group_repeat_example:
  "parsePattern_fixed rnd ''[1 2]*3'' defaults k
     = Some ([Note 1, Note 2, Note 1, Note 2, Note 1, Note 2], k) \<and>
   tokenizeWithBrackets ''[1 2]*3'' = [''[1 2]*3'']"
  by (simp add: fixed_simps repeat_loop.simps double_succ_def)

theorem fixed_scale2_example:
  "parsePattern_fixed rnd ''scale2[1 2 3]'' defaults k = Some ([Note 2, Note 4, Note 6], k)"
  by (simp add: fixed_simps transformPattern_def paramMatch_def)

text \<open>
  The fixed rewrite has the loop of claim C5 as well: on the empty group with the count
  \<open>10^17\<close> it never returns.
\<close>

theorem fixed_huge_count_never_returns:
  "tokenizeWithBrackets ''[]*99999999999999999'' = [''[]*99999999999999999''] \<and>
   parsePattern_fixed rnd ''[]*99999999999999999'' defaults k = None"
proof -
  have tokens: "tokenizeWithBrackets ''[]*99999999999999999'' = [''[]*99999999999999999'']"
    by (simp add: tokw_defs)
  have empty: "tokenizeWithBrackets [] = []"
    by (simp add: tokw_defs)
  have inner: "parsePatternString_fixed rnd [] (defaults\<lparr>currentDepth := 1\<rparr>) k = Some ([], k)"
    using empty by (simp add: parsePatternString_fixed.simps defaults_def)
  have loop: "repeat_loop False 0 (10 ^ 17) [] [] = None"
    by (rule repeat_loop_diverges) simp_all
  have count: "parseInt ''99999999999999999'' = Some (10 ^ 17)"
    by (simp add: parseInt_def string_class_defs bit_length.simps)
  have cls: "is_group_repeat_token ''[]*99999999999999999''"
    by (simp add: is_group_repeat_token_def is_digit_def is_line_terminator_def)
  have split: "split_star ''[]*99999999999999999'' = (''[]'', Some ''99999999999999999'')"
    by (simp add: split_star_def)
  have trim: "js_trim (slice_1_m1 ''[]'') = []"
    by (simp add: js_trim_def slice_1_m1_def)
  have "forEach_token_fixed rnd [''[]*99999999999999999''] (defaults\<lparr>currentDepth := 1\<rparr>) k []
          = None"
    using cls split trim count inner loop by simp
  then show ?thesis using tokens
    by (simp add: parsePattern_fixed_def parsePatternString_fixed.simps defaults_def)
qed

end
